theory Spec2Isabelle
  imports Main "HOL-Library.Sublist"
begin

section \<open>Treemap data: the tree of sources of a script\<close>

text \<open>
  A shallow embedding of \<^verbatim>\<open>lighthouse-core/audits/treemap-data.js\<close>.

  Byte counts are natural numbers (the JavaScript numbers of the source hold sizes in
  bytes, which are exact below \<open>2 ^ 53\<close>); a string is a list of characters, one
  character standing for one code unit of the JavaScript string. An optional field of an
  object is an \<open>option\<close>: \<open>None\<close> is \<^verbatim>\<open>undefined\<close>.
\<close>

subsection \<open>Data\<close>

text \<open>The typedef \<^verbatim>\<open>Node\<close>: \<^verbatim>\<open>children\<close> is absent or an array of nodes.\<close>

datatype Node = Node
  (name: string)
  (resourceBytes: nat)
  (unusedBytes: "nat option")
  (duplicate: "string option")
  (children: "Node list option")

text \<open>The typedef \<^verbatim>\<open>SourceData\<close>: a \<^verbatim>\<open>Node\<close> without name and children.\<close>

record SourceData =
  dataResourceBytes :: nat
  dataUnusedBytes :: "nat option"
  dataDuplicate :: "string option"

subsection \<open>Strings\<close>

text \<open>
  \<^verbatim>\<open>source.replace(sourceRoot, '')\<close> with a string pattern: the first occurrence of the
  pattern, wherever it starts, is removed; a source without the pattern is returned as it
  is. The empty pattern occurs at index 0.
\<close>

fun replaceFirst :: "string \<Rightarrow> string \<Rightarrow> string" where
  "replaceFirst pat [] = []"
| "replaceFirst pat (c # cs) =
     (if take (length pat) (c # cs) = pat then drop (length pat) (c # cs)
      else c # replaceFirst pat cs)"

text \<open>
  \<^verbatim>\<open>s.split(/\/+/)\<close>: the string is cut at every maximal run of slashes. The result is
  never empty: a string without a slash (the empty string too) gives one segment, and a
  run at the start or at the end of the string gives an empty first or last segment.
\<close>

fun splitSlashes :: "string \<Rightarrow> string list" where
  "splitSlashes [] = [[]]"
| "splitSlashes (c # cs) =
     (if c = CHR ''/'' then
        (case cs of
           c' # cs' \<Rightarrow> if c' = CHR ''/'' then splitSlashes cs else [] # splitSlashes cs
         | [] \<Rightarrow> [] # splitSlashes cs)
      else (case splitSlashes cs of
              [] \<Rightarrow> [[c]]
            | seg # segs \<Rightarrow> (c # seg) # segs))"

text \<open>\<^verbatim>\<open>names.join('/')\<close>, used to read a path back from a walk.\<close>

fun joinSlash :: "string list \<Rightarrow> string" where
  "joinSlash [] = []"
| "joinSlash [s] = s"
| "joinSlash (s # t # ts) = s @ ''/'' @ joinSlash (t # ts)"

subsection \<open>prepareTreemapNodes\<close>

definition newNode :: "string \<Rightarrow> Node" where
  "newNode nm = Node nm 0 None None None"

text \<open>
  The two statements that apply the data of a source to a node:
  \<^verbatim>\<open>node.resourceBytes += data.resourceBytes;\<close>
  \<^verbatim>\<open>if (data.unusedBytes) node.unusedBytes = (node.unusedBytes || 0) + data.unusedBytes;\<close>
  An undefined \<^verbatim>\<open>data.unusedBytes\<close> and the number 0 are both falsy.
\<close>

definition orZero :: "nat option \<Rightarrow> nat" where
  "orZero v = (case v of None \<Rightarrow> 0 | Some n \<Rightarrow> n)"

definition truthy :: "nat option \<Rightarrow> bool" where
  "truthy v = (case v of None \<Rightarrow> False | Some n \<Rightarrow> n \<noteq> 0)"

fun applyData :: "SourceData \<Rightarrow> Node \<Rightarrow> Node" where
  "applyData d (Node nm rb ub dup cs) =
     Node nm (rb + dataResourceBytes d)
       (if truthy (dataUnusedBytes d) then Some (orZero ub + orZero (dataUnusedBytes d)) else ub)
       dup cs"

text \<open>
  \<^verbatim>\<open>if (isLastSegment && data.duplicate !== undefined) node.duplicate = data.duplicate;\<close>
\<close>

fun setDuplicate :: "bool \<Rightarrow> SourceData \<Rightarrow> Node \<Rightarrow> Node" where
  "setDuplicate isLastSegment d (Node nm rb ub dup cs) =
     (if isLastSegment \<and> dataDuplicate d \<noteq> None then Node nm rb ub (dataDuplicate d) cs
      else Node nm rb ub dup cs)"

fun setChildren :: "Node list option \<Rightarrow> Node \<Rightarrow> Node" where
  "setChildren cs' (Node nm rb ub dup cs) = Node nm rb ub dup cs'"

text \<open>The child that \<^verbatim>\<open>find\<close> returned is updated where it stands in the array.\<close>

fun updateFirst :: "('a \<Rightarrow> bool) \<Rightarrow> 'a \<Rightarrow> 'a list \<Rightarrow> 'a list" where
  "updateFirst P y [] = []"
| "updateFirst P y (x # xs) = (if P x then y # xs else x # updateFirst P y xs)"

text \<open>
  The \<^verbatim>\<open>forEach\<close> over the segments of a path, from the node the walk stands on: the
  child named as the segment is found (the first one, in the order of the array) or
  created and pushed; the data is applied to it; the last segment's node takes the
  duplicate key; the walk goes on from the child with the segments that remain.
  \<open>childrenList\<close> is \<^verbatim>\<open>node.children || []\<close>.
\<close>

definition childrenList :: "Node \<Rightarrow> Node list" where
  "childrenList node = (case children node of None \<Rightarrow> [] | Some cs \<Rightarrow> cs)"

fun addSegments :: "SourceData \<Rightarrow> string list \<Rightarrow> Node \<Rightarrow> Node" where
  "addSegments d [] node = node"
| "addSegments d (seg # segs) node =
     (case find (\<lambda>c. name c = seg) (childrenList node) of
        None \<Rightarrow>
          setChildren
            (Some (childrenList node @
               [addSegments d segs (setDuplicate (segs = []) d (applyData d (newNode seg)))]))
            node
      | Some child \<Rightarrow>
          setChildren
            (Some (updateFirst (\<lambda>c. name c = seg)
               (addSegments d segs (setDuplicate (segs = []) d (applyData d child)))
               (childrenList node)))
            node)"

definition addAllNodesInSourcePath :: "string \<Rightarrow> string \<Rightarrow> SourceData \<Rightarrow> Node \<Rightarrow> Node" where
  "addAllNodesInSourcePath sourceRoot source d topNode =
     addSegments d (splitSlashes (replaceFirst sourceRoot source)) (applyData d topNode)"

text \<open>
  \<^verbatim>\<open>Object.entries(sourcesData)\<close> is the list of the entries in the order of the loop;
  an empty key is read as \<^verbatim>\<open><unmapped>\<close>.
\<close>

definition sourceKey :: "string \<Rightarrow> string" where
  "sourceKey source = (if source = [] then ''<unmapped>'' else source)"

definition buildTree :: "string \<Rightarrow> (string \<times> SourceData) list \<Rightarrow> Node" where
  "buildTree sourceRoot sourcesData =
     foldl (\<lambda>topNode (source, d). addAllNodesInSourcePath sourceRoot (sourceKey source) d topNode)
       (newNode sourceRoot) sourcesData"

text \<open>
  \<^verbatim>\<open>collapseAll\<close>. The \<^verbatim>\<open>while\<close> loop merges the only child into the node as long
  as there is exactly one child; then every child that is left is collapsed.
\<close>

function collapseChain :: "Node \<Rightarrow> Node" where
  "collapseChain (Node nm rb ub dup cs) =
     (case cs of
        Some [c] \<Rightarrow> collapseChain (Node (nm @ ''/'' @ name c) rb ub dup (children c))
      | _ \<Rightarrow> Node nm rb ub dup cs)"
  by pat_completeness auto
termination
  apply (relation "measure size")
   apply simp
  subgoal for nm rb ub dup cs x2 c list
    by (cases c) simp
  done

function collapseAll :: "Node \<Rightarrow> Node" where
  "collapseAll node =
     (let n = collapseChain node in setChildren (map_option (map collapseAll) (children n)) n)"
  by pat_completeness auto
termination
  apply (relation "measure size")
   apply simp
  subgoal premises prems for node x cs c
  proof -
    have child: "size k < size (Node nm rb ub dup (Some ks))" if "k \<in> set ks"
      for k ks nm rb ub dup
      using that by (induction ks) auto
    have "children (collapseChain n) = Some cs \<Longrightarrow> size c < size n" for n
    proof (induction n rule: collapseChain.induct)
      case (1 nm rb ub dup cs0)
      show ?case
      proof (cases "\<exists>k. cs0 = Some [k]")
        case True
        then obtain k where k: "cs0 = Some [k]" by blast
        obtain knm krb kub kdup kcs where kk: "k = Node knm krb kub kdup kcs" by (cases k)
        from 1 k have "size c < size (Node (nm @ ''/'' @ name k) rb ub dup (children k))"
          by simp
        with k kk show ?thesis by simp
      next
        case False
        then have "collapseChain (Node nm rb ub dup cs0) = Node nm rb ub dup cs0"
          by (auto split: option.splits list.splits)
        with 1 prems child show ?thesis by auto
      qed
    qed
    with prems show ?thesis by auto
  qed
  done

declare collapseAll.simps [simp del]
declare collapseChain.simps [simp del]

text \<open>The tree before \<^verbatim>\<open>collapseAll(topNode)\<close> is \<open>buildTree\<close>; the function returns:\<close>

definition prepareTreemapNodes :: "string \<Rightarrow> (string \<times> SourceData) list \<Rightarrow> Node" where
  "prepareTreemapNodes sourceRoot sourcesData = collapseAll (buildTree sourceRoot sourcesData)"

subsection \<open>makeRootNodes\<close>

text \<open>
  The artifacts and the results of the computed artifacts that \<^verbatim>\<open>makeRootNodes\<close> reads,
  with the fields it reads. A script element has a \<^verbatim>\<open>src\<close> and a \<^verbatim>\<open>content\<close>, each a
  string or \<^verbatim>\<open>null\<close>. Of a bundle the function reads \<^verbatim>\<open>script.src\<close>, the entries of
  \<^verbatim>\<open>sizes.files\<close> (in the order of \<^verbatim>\<open>Object.keys\<close>) and \<^verbatim>\<open>rawMap.sourceRoot\<close>; of the
  summary of unused JavaScript \<^verbatim>\<open>totalBytes\<close>, \<^verbatim>\<open>wastedBytes\<close> and the optional record
  \<^verbatim>\<open>sourcesWastedBytes\<close>.
\<close>

record ScriptElement =
  src :: "string option"
  content :: "string option"

record Bundle =
  scriptSrc :: "string option"
  sizesFiles :: "(string \<times> nat) list"
  rawMapSourceRoot :: "string option"

record Summary =
  totalBytes :: nat
  wastedBytes :: nat
  sourcesWastedBytes :: "(string \<Rightarrow> nat option) option"

record 'cov Artifacts =
  ScriptElements :: "ScriptElement list"
  finalUrl :: string
  JsUsage :: "string \<Rightarrow> 'cov option"

record RootNodeContainer =
  containerName :: string
  containerNode :: Node

text \<open>
  The computed artifacts are not part of this file; their results are parameters:
  \<open>bundles\<close> is the result of \<^verbatim>\<open>JsBundles.request\<close>, \<open>duplicationByPath\<close> the set of the
  keys of the map that \<^verbatim>\<open>ModuleDuplication.request\<close> returns, \<open>normalizeSource\<close> is
  \<^verbatim>\<open>ModuleDuplication.normalizeSource\<close> and \<open>summaryRequest\<close> is
  \<^verbatim>\<open>UnusedJavaScriptSummary.request\<close>, a function of the url, the coverage and the bundle.
\<close>

text \<open>\<^verbatim>\<open>!scriptElement.src\<close> is false: the \<^verbatim>\<open>src\<close> is a string and not the empty one.\<close>

definition hasSrc :: "ScriptElement \<Rightarrow> bool" where
  "hasSrc scriptElement = (case src scriptElement of None \<Rightarrow> False | Some s \<Rightarrow> s \<noteq> [])"

text \<open>The first loop: the sum of \<^verbatim>\<open>(scriptElement.content || '').length\<close> over the inline scripts.\<close>

definition inlineScriptLength :: "ScriptElement list \<Rightarrow> nat" where
  "inlineScriptLength scriptElements =
     foldl (\<lambda>total scriptElement.
              if hasSrc scriptElement then total
              else total + length (case content scriptElement of None \<Rightarrow> [] | Some c \<Rightarrow> c))
       0 scriptElements"

text \<open>The record \<^verbatim>\<open>sourcesData\<close> built from the files of a bundle.\<close>

definition sourcesDataOf ::
  "(string \<Rightarrow> string) \<Rightarrow> string set \<Rightarrow> Bundle \<Rightarrow> (string \<Rightarrow> nat option) \<Rightarrow>
     (string \<times> SourceData) list" where
  "sourcesDataOf normalizeSource duplicationByPath bundle wasted =
     map (\<lambda>(source, bytes).
            (source,
             \<lparr>dataResourceBytes = bytes,
              dataUnusedBytes = wasted source,
              dataDuplicate =
                (if normalizeSource source \<in> duplicationByPath then Some (normalizeSource source)
                 else None)\<rparr>))
       (sizesFiles bundle)"

text \<open>The body of the second loop for a script element whose \<^verbatim>\<open>src\<close> is \<open>s\<close>.\<close>

definition scriptContainer ::
  "'cov Artifacts \<Rightarrow> Bundle list \<Rightarrow> string set \<Rightarrow> (string \<Rightarrow> string) \<Rightarrow>
     (string \<Rightarrow> 'cov \<Rightarrow> Bundle \<Rightarrow> Summary) \<Rightarrow> string \<Rightarrow> RootNodeContainer" where
  "scriptContainer artifacts bundles duplicationByPath normalizeSource summaryRequest s =
     (case find (\<lambda>bundle. scriptSrc bundle = Some s) bundles of
        None \<Rightarrow> \<lparr>containerName = s, containerNode = Node s (length s) None None None\<rparr>
      | Some bundle \<Rightarrow>
          (case JsUsage artifacts s of
             None \<Rightarrow> \<lparr>containerName = s, containerNode = Node s (length s) None None None\<rparr>
           | Some scriptCoverages \<Rightarrow>
               (let unusedJavascriptSummary = summaryRequest s scriptCoverages bundle in
                \<lparr>containerName = s,
                 containerNode =
                   (case sourcesWastedBytes unusedJavascriptSummary of
                      Some wasted \<Rightarrow>
                        prepareTreemapNodes
                          (case rawMapSourceRoot bundle of None \<Rightarrow> [] | Some r \<Rightarrow> r)
                          (sourcesDataOf normalizeSource duplicationByPath bundle wasted)
                    | None \<Rightarrow>
                        Node s (totalBytes unusedJavascriptSummary)
                          (Some (wastedBytes unusedJavascriptSummary)) None None)\<rparr>)))"

definition makeRootNodes ::
  "'cov Artifacts \<Rightarrow> Bundle list \<Rightarrow> string set \<Rightarrow> (string \<Rightarrow> string) \<Rightarrow>
     (string \<Rightarrow> 'cov \<Rightarrow> Bundle \<Rightarrow> Summary) \<Rightarrow> RootNodeContainer list" where
  "makeRootNodes artifacts bundles duplicationByPath normalizeSource summaryRequest =
     (if inlineScriptLength (ScriptElements artifacts) \<noteq> 0
      then [\<lparr>containerName = finalUrl artifacts,
             containerNode =
               Node (finalUrl artifacts) (inlineScriptLength (ScriptElements artifacts))
                 None None None\<rparr>]
      else []) @
     concat (map (\<lambda>scriptElement.
                    case src scriptElement of
                      None \<Rightarrow> []
                    | Some s \<Rightarrow>
                        if s = [] then []
                        else [scriptContainer artifacts bundles duplicationByPath normalizeSource
                                summaryRequest s])
               (ScriptElements artifacts))"

subsection \<open>Reading a tree\<close>

text \<open>Every node of a tree, the root first.\<close>

fun subnodes :: "Node \<Rightarrow> Node list" where
  "subnodes (Node nm rb ub dup cs) =
     Node nm rb ub dup cs # (case cs of None \<Rightarrow> [] | Some l \<Rightarrow> concat (map subnodes l))"

text \<open>The test of the loop of \<^verbatim>\<open>collapseAll\<close>: \<^verbatim>\<open>node.children && node.children.length === 1\<close>.\<close>

definition singleChild :: "Node \<Rightarrow> bool" where
  "singleChild n = (case children n of None \<Rightarrow> False | Some cs \<Rightarrow> length cs = 1)"

text \<open>
  The segments that \<^verbatim>\<open>addAllNodesInSourcePath\<close> walks for a key of the mapping.
\<close>

definition pathSegments :: "string \<Rightarrow> string \<Rightarrow> string list" where
  "pathSegments sourceRoot source = splitSlashes (replaceFirst sourceRoot (sourceKey source))"

text \<open>
  The position of a node is the list of the names on the way from the root down to it
  (the root's own name left out); \<open>located\<close> lists every node with its position.
\<close>

fun located :: "Node \<Rightarrow> (string list \<times> Node) list" where
  "located (Node nm rb ub dup cs) =
     ([], Node nm rb ub dup cs) #
     (case cs of
        None \<Rightarrow> []
      | Some l \<Rightarrow> concat (map (\<lambda>c. map (\<lambda>(p, n). (name c # p, n)) (located c)) l))"

text \<open>
  The walk from a node along a list of segments, each step as the source makes it (the
  first child of that name); the result is the list of the nodes met, when all are there.
\<close>

fun walk :: "Node \<Rightarrow> string list \<Rightarrow> Node list option" where
  "walk node [] = Some []"
| "walk node (seg # segs) =
     (case find (\<lambda>c. name c = seg) (childrenList node) of
        None \<Rightarrow> None
      | Some c \<Rightarrow> map_option ((#) c) (walk c segs))"

text \<open>
  No source lies below another one: no list of segments of a key is a proper prefix of
  the list of segments of another key (no file is a directory as well).
\<close>

definition noNesting :: "string \<Rightarrow> (string \<times> SourceData) list \<Rightarrow> bool" where
  "noNesting sourceRoot sourcesData =
     (\<forall>(s, d) \<in> set sourcesData. \<forall>(s', d') \<in> set sourcesData.
        \<not> strict_prefix (pathSegments sourceRoot s) (pathSegments sourceRoot s'))"

subsection \<open>What a node stands for\<close>

text \<open>
  An item is what is left of an entry at a node its walk has reached: the segments that
  remain below the node, and the data. The definitions of this section say what a node
  holds once the items of a list have passed it, in the order of the list.
\<close>

type_synonym item = "string list \<times> SourceData"

definition itemsOf :: "string \<Rightarrow> (string \<times> SourceData) list \<Rightarrow> item list" where
  "itemsOf sourceRoot sourcesData =
     map (\<lambda>(source, d). (pathSegments sourceRoot source, d)) sourcesData"

definition itemsBelow :: "string \<Rightarrow> item list \<Rightarrow> item list" where
  "itemsBelow seg items =
     map (\<lambda>(s, d). (tl s, d)) (filter (\<lambda>(s, d). s \<noteq> [] \<and> hd s = seg) items)"

fun itemsAt :: "string list \<Rightarrow> item list \<Rightarrow> item list" where
  "itemsAt [] items = items"
| "itemsAt (seg # p) items = itemsAt p (itemsBelow seg items)"

definition heads :: "item list \<Rightarrow> string set" where
  "heads items = {hd s | s d. (s, d) \<in> set items \<and> s \<noteq> []}"

definition totalResource :: "item list \<Rightarrow> nat" where
  "totalResource items = sum_list (map (\<lambda>(s, d). dataResourceBytes d) items)"

definition totalUnused :: "item list \<Rightarrow> nat" where
  "totalUnused items = sum_list (map (\<lambda>(s, d). orZero (dataUnusedBytes d)) items)"

definition unusedOf :: "item list \<Rightarrow> nat option" where
  "unusedOf items = (if totalUnused items = 0 then None else Some (totalUnused items))"

definition lastDuplicate :: "item list \<Rightarrow> string option" where
  "lastDuplicate items =
     foldl (\<lambda>acc (s, d). if s = [] \<and> dataDuplicate d \<noteq> None then dataDuplicate d else acc)
       None items"

fun represents :: "Node \<Rightarrow> item list \<Rightarrow> bool" where
  "represents (Node nm rb ub dup cs) items =
     (rb = totalResource items \<and> ub = unusedOf items \<and> dup = lastDuplicate items \<and>
      (case cs of
         None \<Rightarrow> heads items = {}
       | Some l \<Rightarrow> l \<noteq> [] \<and> distinct (map name l) \<and> set (map name l) = heads items \<and>
           (\<forall>c \<in> set l. represents c (itemsBelow (name c) items))))"

text \<open>One step of the walk on the node it has found or created, and the rest of the walk.\<close>

definition visit :: "SourceData \<Rightarrow> string list \<Rightarrow> Node \<Rightarrow> Node" where
  "visit d segs n = addSegments d segs (setDuplicate (segs = []) d (applyData d n))"


subsection \<open>What the properties speak of\<close>

text \<open>A string without two slashes in a row.\<close>

fun noSlashRun :: "string \<Rightarrow> bool" where
  "noSlashRun (c # c' # cs) = (\<not> (c = CHR ''/'' \<and> c' = CHR ''/'') \<and> noSlashRun (c' # cs))"
| "noSlashRun cs = True"

text \<open>
  The path read back from the walk along a list of segments: the name of the root, then
  the names of the nodes of the walk joined by slashes.
\<close>

definition pathAlongWalk :: "Node \<Rightarrow> string list \<Rightarrow> string option" where
  "pathAlongWalk tree segs =
     map_option (\<lambda>ns. name tree @ joinSlash (map name ns)) (walk tree segs)"

text \<open>
  The sums of a node with children: its resource bytes are the sum of the resource bytes
  of its children and, when a child has unused bytes, its unused bytes are the sum of the
  unused bytes of its children, an absent field counting as zero.
\<close>

definition sumsChildren :: "Node \<Rightarrow> bool" where
  "sumsChildren n =
     (case children n of
        None \<Rightarrow> True
      | Some cs \<Rightarrow>
          resourceBytes n = sum_list (map resourceBytes cs) \<and>
          ((\<exists>c \<in> set cs. unusedBytes c \<noteq> None) \<longrightarrow>
             unusedBytes n = Some (sum_list (map (\<lambda>c. orZero (unusedBytes c)) cs))))"

text \<open>A form of the sums that chain compression keeps, node by node.\<close>

definition wellSummed :: "Node \<Rightarrow> bool" where
  "wellSummed n =
     (unusedBytes n \<noteq> Some 0 \<and>
      (case children n of
         None \<Rightarrow> True
       | Some cs \<Rightarrow>
           resourceBytes n = sum_list (map resourceBytes cs) \<and>
           orZero (unusedBytes n) = sum_list (map (\<lambda>c. orZero (unusedBytes c)) cs)))"

definition nestFree :: "item list \<Rightarrow> bool" where
  "nestFree items = (\<forall>(s, d) \<in> set items. \<forall>(s', d') \<in> set items. \<not> strict_prefix s s')"

text \<open>The nodes below a node.\<close>

definition descendants :: "Node \<Rightarrow> Node list" where
  "descendants n = concat (map subnodes (childrenList n))"

text \<open>The leaves of a tree, from left to right: the nodes without children.\<close>

fun leaves :: "Node \<Rightarrow> Node list" where
  "leaves (Node nm rb ub dup cs) =
     (case cs of None \<Rightarrow> [Node nm rb ub dup cs] | Some l \<Rightarrow> concat (map leaves l))"

section \<open>Properties of chain compression\<close>

lemma collapseChain_single:
  "collapseChain (Node nm rb ub dup (Some [c])) =
     collapseChain (Node (nm @ ''/'' @ name c) rb ub dup (children c))"
  by (subst collapseChain.simps) simp

lemma collapseChain_fixed:
  assumes "\<not> singleChild n"
  shows "collapseChain n = n"
proof (cases n)
  case (Node nm rb ub dup cs)
  with assms have "\<not> (\<exists>c. cs = Some [c])"
    by (auto simp: singleChild_def)
  then have "collapseChain (Node nm rb ub dup cs) = Node nm rb ub dup cs"
    by (subst collapseChain.simps) (auto split: option.splits list.splits)
  with Node show ?thesis by simp
qed

lemma collapseChain_not_single: "\<not> singleChild (collapseChain n)"
proof (induction n rule: collapseChain.induct)
  case (1 nm rb ub dup cs)
  show ?case
  proof (cases "singleChild (Node nm rb ub dup cs)")
    case True
    then obtain c where "cs = Some [c]"
      by (auto simp: singleChild_def length_Suc_conv split: option.splits)
    with 1 show ?thesis by (simp add: collapseChain_single)
  next
    case False
    then show ?thesis using collapseChain_fixed by metis
  qed
qed

lemma children_setChildren [simp]: "children (setChildren cs n) = cs"
  by (cases n) simp

lemma setChildren_twice [simp]: "setChildren cs (setChildren cs' n) = setChildren cs n"
  by (cases n) simp

lemma collapseAll_unfold:
  "collapseAll t =
     setChildren (map_option (map collapseAll) (children (collapseChain t))) (collapseChain t)"
  by (simp add: collapseAll.simps [of t] Let_def)

lemma children_collapseAll:
  "children (collapseAll t) = map_option (map collapseAll) (children (collapseChain t))"
  by (simp add: collapseAll_unfold [of t])

lemma singleChild_collapseAll: "\<not> singleChild (collapseAll t)"
  using collapseChain_not_single [of t]
  by (auto simp: singleChild_def children_collapseAll split: option.splits)

lemma set_subnodes:
  "set (subnodes n) =
     insert n (case children n of None \<Rightarrow> {} | Some l \<Rightarrow> (\<Union>c\<in>set l. set (subnodes c)))"
  by (cases n) (auto split: option.splits)

text \<open>
  Claim C7. After \<^verbatim>\<open>collapseAll\<close> has run on a tree, no node of the tree has exactly one
  child. The loop runs on the root as on every other node, so the root is no exception.
\<close>

theorem collapseAll_no_single_child:
  "n \<in> set (subnodes (collapseAll t)) \<Longrightarrow> \<not> singleChild n"
proof (induction t arbitrary: n rule: collapseAll.induct)
  case (1 node)
  from "1.prems" consider "n = collapseAll node"
    | l c where "children (collapseAll node) = Some l" "c \<in> set l" "n \<in> set (subnodes c)"
    by (subst (asm) set_subnodes) (auto split: option.splits)
  then show ?case
  proof cases
    case 1
    then show ?thesis by (simp add: singleChild_collapseAll)
  next
    case 2
    then obtain l0 c0 where
      "children (collapseChain node) = Some l0" "c0 \<in> set l0" "c = collapseAll c0"
      by (auto simp: children_collapseAll)
    with "1.IH" 2 show ?thesis by blast
  qed
qed

theorem collapseAll_no_single_child_witness:
  "Node ''b'' 2 None None None
     \<in> set (subnodes (collapseAll
         (Node '''' 5 None None (Some [Node ''a'' 5 None None
            (Some [Node ''b'' 2 None None None, Node ''c'' 3 None None None])]))))
   \<and> \<not> singleChild (Node ''b'' 2 None None None)"
proof -
  have h: "Node ''b'' 2 None None None
     \<in> set (subnodes (collapseAll
         (Node '''' 5 None None (Some [Node ''a'' 5 None None
            (Some [Node ''b'' 2 None None None, Node ''c'' 3 None None None])]))))"
    by code_simp
  from collapseAll_no_single_child [OF h] h show ?thesis by simp
qed

text \<open>
  Claim C8. Chain compression is idempotent: on every tree, \<^verbatim>\<open>collapseAll\<close> run twice
  gives the tree that one run gives.
\<close>

theorem collapseAll_idempotent: "collapseAll (collapseAll t) = collapseAll t"
proof (induction t rule: collapseAll.induct)
  case (1 node)
  let ?n = "collapseChain node"
  let ?r = "collapseAll node"
  have fixed: "collapseChain ?r = ?r"
    by (rule collapseChain_fixed) (rule singleChild_collapseAll)
  have "collapseAll ?r = setChildren (map_option (map collapseAll) (children ?r)) ?r"
    by (subst collapseAll_unfold) (simp add: fixed)
  also have "map_option (map collapseAll) (children ?r) = map_option (map collapseAll) (children ?n)"
    using "1.IH" by (cases "children ?n") (auto simp: children_collapseAll)
  also have "setChildren (map_option (map collapseAll) (children ?n)) ?r = ?r"
    by (subst (2) collapseAll_unfold, subst collapseAll_unfold) simp
  finally show ?case .
qed

section \<open>The empty mapping\<close>

text \<open>
  Claim C10. On a mapping without entries \<^verbatim>\<open>prepareTreemapNodes\<close> returns the root alone:
  a node named as the source root, with 0 resource bytes, without unused bytes, duplicate
  key or children.
\<close>

theorem prepareTreemapNodes_empty:
  "prepareTreemapNodes sourceRoot [] = Node sourceRoot 0 None None None"
  by (simp add: prepareTreemapNodes_def buildTree_def newNode_def
        collapseAll.simps [of "Node sourceRoot 0 None None None"]
        collapseChain.simps [of sourceRoot 0 None None None])

section \<open>The tree that the insertion of the paths builds\<close>

lemma represents_iff:
  "represents n items \<longleftrightarrow>
     resourceBytes n = totalResource items \<and> unusedBytes n = unusedOf items \<and>
     duplicate n = lastDuplicate items \<and>
     (children n = None \<longleftrightarrow> heads items = {}) \<and>
     distinct (map name (childrenList n)) \<and>
     name ` set (childrenList n) = heads items \<and>
     (\<forall>c \<in> set (childrenList n). represents c (itemsBelow (name c) items))"
  by (cases n) (auto simp: childrenList_def split: option.splits)

declare represents.simps [simp del]

lemma applyData_fields [simp]:
  "name (applyData d n) = name n"
  "resourceBytes (applyData d n) = resourceBytes n + dataResourceBytes d"
  "unusedBytes (applyData d n) =
     (if truthy (dataUnusedBytes d) then Some (orZero (unusedBytes n) + orZero (dataUnusedBytes d))
      else unusedBytes n)"
  "duplicate (applyData d n) = duplicate n"
  "children (applyData d n) = children n"
  by (cases n; simp)+

lemma setDuplicate_fields [simp]:
  "name (setDuplicate b d n) = name n"
  "resourceBytes (setDuplicate b d n) = resourceBytes n"
  "unusedBytes (setDuplicate b d n) = unusedBytes n"
  "duplicate (setDuplicate b d n) = (if b \<and> dataDuplicate d \<noteq> None then dataDuplicate d else duplicate n)"
  "children (setDuplicate b d n) = children n"
  by (cases n; auto)+

lemma newNode_fields [simp]:
  "name (newNode nm) = nm" "children (newNode nm) = None"
  by (simp_all add: newNode_def)

lemma setChildren_fields [simp]:
  "name (setChildren cs n) = name n"
  "resourceBytes (setChildren cs n) = resourceBytes n"
  "unusedBytes (setChildren cs n) = unusedBytes n"
  "duplicate (setChildren cs n) = duplicate n"
  by (cases n; simp)+

lemma childrenList_simps [simp]:
  "childrenList (applyData d n) = childrenList n"
  "childrenList (setDuplicate b d n) = childrenList n"
  "childrenList (setChildren (Some cs) n) = cs"
  "childrenList (newNode nm) = []"
  by (simp_all add: childrenList_def newNode_def)

lemma addSegments_fields [simp]:
  "name (addSegments d segs n) = name n"
  "resourceBytes (addSegments d segs n) = resourceBytes n"
  "unusedBytes (addSegments d segs n) = unusedBytes n"
  "duplicate (addSegments d segs n) = duplicate n"
  by (cases segs; simp split: option.splits)+

lemma visit_fields [simp]:
  "name (visit d segs n) = name n"
  "resourceBytes (visit d segs n) = resourceBytes n + dataResourceBytes d"
  "unusedBytes (visit d segs n) =
     (if truthy (dataUnusedBytes d) then Some (orZero (unusedBytes n) + orZero (dataUnusedBytes d))
      else unusedBytes n)"
  "duplicate (visit d segs n) =
     (if segs = [] \<and> dataDuplicate d \<noteq> None then dataDuplicate d else duplicate n)"
  by (auto simp: visit_def)

lemma children_visit_Nil [simp]: "children (visit d [] n) = children n"
  by (simp add: visit_def)

lemma children_visit_Cons:
  "children (visit d (seg # segs) n) =
     Some (case find (\<lambda>c. name c = seg) (childrenList n) of
             None \<Rightarrow> childrenList n @ [visit d segs (newNode seg)]
           | Some child \<Rightarrow> updateFirst (\<lambda>c. name c = seg) (visit d segs child) (childrenList n))"
  by (simp add: visit_def split: option.splits)

lemma totalResource_snoc [simp]:
  "totalResource (items @ [(s, d)]) = totalResource items + dataResourceBytes d"
  by (simp add: totalResource_def)

lemma totalUnused_snoc [simp]:
  "totalUnused (items @ [(s, d)]) = totalUnused items + orZero (dataUnusedBytes d)"
  by (simp add: totalUnused_def)

lemma orZero_unusedOf [simp]: "orZero (unusedOf items) = totalUnused items"
  by (simp add: unusedOf_def orZero_def)

lemma truthy_orZero: "truthy v \<longleftrightarrow> orZero v \<noteq> 0"
  by (simp add: truthy_def orZero_def split: option.splits)

lemma unusedOf_snoc:
  "unusedOf (items @ [(s, d)]) =
     (if truthy (dataUnusedBytes d) then Some (orZero (unusedOf items) + orZero (dataUnusedBytes d))
      else unusedOf items)"
  by (auto simp: unusedOf_def truthy_orZero orZero_def)

lemma lastDuplicate_snoc:
  "lastDuplicate (items @ [(s, d)]) =
     (if s = [] \<and> dataDuplicate d \<noteq> None then dataDuplicate d else lastDuplicate items)"
  by (auto simp: lastDuplicate_def)

lemma itemsBelow_snoc:
  "itemsBelow seg (items @ [(s, d)]) =
     (if s \<noteq> [] \<and> hd s = seg then itemsBelow seg items @ [(tl s, d)] else itemsBelow seg items)"
  by (simp add: itemsBelow_def)

lemma heads_snoc:
  "heads (items @ [(s, d)]) = (if s = [] then heads items else insert (hd s) (heads items))"
  by (auto simp: heads_def)

lemma itemsBelow_empty: "seg \<notin> heads items \<Longrightarrow> itemsBelow seg items = []"
  by (auto simp: heads_def itemsBelow_def filter_empty_conv)

lemma represents_newNode: "represents (newNode nm) []"
  by (simp add: represents.simps newNode_def totalResource_def unusedOf_def totalUnused_def
      lastDuplicate_def heads_def childrenList_def)

lemma map_updateFirst:
  "(\<And>x. x \<in> set xs \<Longrightarrow> P x \<Longrightarrow> f x = f y) \<Longrightarrow> map f (updateFirst P y xs) = map f xs"
  by (induction xs) auto

lemma set_updateFirst:
  "distinct (map f xs) \<Longrightarrow> z \<in> set (updateFirst (\<lambda>c. f c = a) y xs) \<Longrightarrow>
     z = y \<or> (z \<in> set xs \<and> f z \<noteq> a)"
proof (induction xs)
  case Nil
  then show ?case by simp
next
  case (Cons x xs)
  show ?case
  proof (cases "f x = a")
    case True
    with Cons.prems have "z = y \<or> z \<in> set xs" by auto
    moreover have "f z \<noteq> a" if "z \<in> set xs"
    proof -
      from Cons.prems(1) have "f x \<notin> f ` set xs" by simp
      with that True show ?thesis by (metis imageI)
    qed
    ultimately show ?thesis by auto
  next
    case False
    with Cons show ?thesis by auto
  qed
qed

lemma represents_visit:
  "represents n items \<Longrightarrow> represents (visit d segs n) (items @ [(segs, d)])"
proof (induction segs arbitrary: n items)
  case Nil
  then show ?case
    by (simp add: represents_iff [of "visit d [] n"] represents_iff [of n]
        unusedOf_snoc lastDuplicate_snoc itemsBelow_snoc heads_snoc childrenList_def)
next
  case (Cons seg rest)
  let ?cs = "childrenList n"
  let ?items' = "items @ [(seg # rest, d)]"
  from Cons.prems have rep: "distinct (map name ?cs)" "name ` set ?cs = heads items"
    "\<And>c. c \<in> set ?cs \<Longrightarrow> represents c (itemsBelow (name c) items)"
    by (simp_all add: represents_iff [of n])
  have fields: "resourceBytes (visit d (seg # rest) n) = totalResource ?items'"
    "unusedBytes (visit d (seg # rest) n) = unusedOf ?items'"
    "duplicate (visit d (seg # rest) n) = lastDuplicate ?items'"
    using Cons.prems by (simp_all add: represents_iff [of n] unusedOf_snoc lastDuplicate_snoc)
  have hd': "heads ?items' = insert seg (heads items)"
    by (simp add: heads_snoc)
  show ?case
  proof (cases "find (\<lambda>c. name c = seg) ?cs")
    case None
    then have "seg \<notin> name ` set ?cs"
      by (auto simp: find_None_iff)
    with rep(2) have fresh: "seg \<notin> heads items"
      by simp
    let ?v = "visit d rest (newNode seg)"
    have ch: "children (visit d (seg # rest) n) = Some (?cs @ [?v])"
      by (simp add: children_visit_Cons None)
    have v: "represents ?v (itemsBelow seg ?items')"
      using Cons.IH [OF represents_newNode, of seg] fresh
      by (simp add: itemsBelow_snoc itemsBelow_empty)
    have others: "represents c (itemsBelow (name c) ?items')" if "c \<in> set ?cs" for c
    proof -
      from that rep(2) fresh have "name c \<noteq> seg" by auto
      with rep(3) [OF that] show ?thesis by (simp add: itemsBelow_snoc)
    qed
    have chl: "childrenList (visit d (seg # rest) n) = ?cs @ [?v]"
      by (simp add: childrenList_def ch)
    have fresh': "seg \<notin> name ` set ?cs"
      using fresh rep(2) by simp
    show ?thesis
      unfolding represents_iff [of "visit d (seg # rest) n"] chl
    proof (intro conjI)
      show "distinct (map name (?cs @ [?v]))"
        using rep(1) fresh' by simp
      show "name ` set (?cs @ [?v]) = heads ?items'"
        using rep(2) by (simp add: hd')
      show "\<forall>c\<in>set (?cs @ [?v]). represents c (itemsBelow (name c) ?items')"
        using v others by auto
      show "(children (visit d (seg # rest) n) = None) = (heads ?items' = {})"
        by (simp add: ch hd')
    qed (rule fields)+
  next
    case (Some child)
    then have child: "child \<in> set ?cs" "name child = seg"
      by (auto simp: find_Some_iff)
    let ?v = "visit d rest child"
    let ?cs' = "updateFirst (\<lambda>c. name c = seg) ?v ?cs"
    have ch: "children (visit d (seg # rest) n) = Some ?cs'"
      by (simp add: children_visit_Cons Some)
    have names: "map name ?cs' = map name ?cs"
      by (rule map_updateFirst) (simp add: child(2))
    have seg_in: "seg \<in> heads items"
      using child rep(2) by auto
    have v: "represents ?v (itemsBelow seg ?items')"
      using Cons.IH [OF rep(3) [OF child(1)]] child(2)
      by (simp add: itemsBelow_snoc)
    have all: "represents c (itemsBelow (name c) ?items')" if "c \<in> set ?cs'" for c
    proof -
      from set_updateFirst [OF rep(1) that]
      consider "c = ?v" | "c \<in> set ?cs" "name c \<noteq> seg" by blast
      then show ?thesis
      proof cases
        case 1
        with v child(2) show ?thesis by simp
      next
        case 2
        with rep(3) show ?thesis by (simp add: itemsBelow_snoc)
      qed
    qed
    have set_names: "name ` set ?cs' = heads items"
      using names rep(2) by (metis set_map)
    have chl: "childrenList (visit d (seg # rest) n) = ?cs'"
      by (simp add: childrenList_def ch)
    show ?thesis
      unfolding represents_iff [of "visit d (seg # rest) n"] chl
    proof (intro conjI)
      show "distinct (map name ?cs')"
        using rep(1) names by simp
      show "name ` set ?cs' = heads ?items'"
        using set_names seg_in by (auto simp: hd')
      show "\<forall>c\<in>set ?cs'. represents c (itemsBelow (name c) ?items')"
        using all by blast
      show "(children (visit d (seg # rest) n) = None) = (heads ?items' = {})"
        by (simp add: ch hd')
    qed (rule fields)+
  qed
qed

declare splitSlashes.simps [simp del]

lemma splitSlashes_not_Nil [simp]: "splitSlashes s \<noteq> []"
proof (induction s rule: splitSlashes.induct)
  case 1
  show ?case by (simp add: splitSlashes.simps)
next
  case (2 c cs)
  then show ?case
    by (subst splitSlashes.simps) (auto split: list.splits)
qed

lemma setDuplicate_False [simp]: "setDuplicate False d n = n"
  by (cases n) simp

lemma addAllNodesInSourcePath_visit:
  "addAllNodesInSourcePath sourceRoot source d topNode =
     visit d (splitSlashes (replaceFirst sourceRoot source)) topNode"
proof -
  obtain seg segs where "splitSlashes (replaceFirst sourceRoot source) = seg # segs"
    using splitSlashes_not_Nil by (cases "splitSlashes (replaceFirst sourceRoot source)") auto
  then show ?thesis
    by (simp add: addAllNodesInSourcePath_def visit_def split: option.splits)
qed

lemma buildTree_snoc:
  "buildTree sourceRoot (sourcesData @ [(source, d)]) =
     visit d (pathSegments sourceRoot source) (buildTree sourceRoot sourcesData)"
  by (simp add: buildTree_def addAllNodesInSourcePath_visit pathSegments_def)

lemma represents_buildTree:
  "represents (buildTree sourceRoot sourcesData) (itemsOf sourceRoot sourcesData)"
proof (induction sourcesData rule: rev_induct)
  case Nil
  show ?case
    using represents_newNode [of sourceRoot] by (simp add: buildTree_def itemsOf_def)
next
  case (snoc x xs)
  obtain source d where x: "x = (source, d)" by (cases x)
  show ?case
    using represents_visit [OF snoc.IH, of d "pathSegments sourceRoot source"]
    by (simp add: x buildTree_snoc itemsOf_def)
qed

lemma name_buildTree [simp]: "name (buildTree sourceRoot sourcesData) = sourceRoot"
proof (induction sourcesData rule: rev_induct)
  case Nil
  show ?case by (simp add: buildTree_def)
next
  case (snoc x xs)
  then show ?case by (cases x) (simp add: buildTree_snoc)
qed

lemma in_shifted:
  "(p, n) \<in> (\<lambda>(q, m). (a # q, m)) ` S \<longleftrightarrow> (\<exists>p'. p = a # p' \<and> (p', n) \<in> S)"
  by force

lemma located_iff:
  "(p, n) \<in> set (located t) \<longleftrightarrow>
     (p = [] \<and> n = t) \<or>
     (\<exists>c \<in> set (childrenList t). \<exists>p'. p = name c # p' \<and> (p', n) \<in> set (located c))"
proof (cases t)
  case (Node nm rb ub dup cs)
  show ?thesis
  proof (cases cs)
    case None
    with Node show ?thesis by (auto simp: childrenList_def)
  next
    case (Some l)
    with Node show ?thesis
      by (simp add: childrenList_def in_shifted)
  qed
qed

lemma in_itemsBelow: "(s, d) \<in> set (itemsBelow seg items) \<longleftrightarrow> (seg # s, d) \<in> set items"
proof (induction items)
  case Nil
  show ?case by (simp add: itemsBelow_def)
next
  case (Cons x items)
  obtain s0 d0 where x: "x = (s0, d0)" by (cases x)
  have "itemsBelow seg (x # items) =
          (if s0 \<noteq> [] \<and> hd s0 = seg then (tl s0, d0) # itemsBelow seg items
           else itemsBelow seg items)"
    by (simp add: itemsBelow_def x)
  with Cons x show ?case
    by (cases s0) auto
qed

lemma in_itemsAt: "(s, d) \<in> set (itemsAt p items) \<longleftrightarrow> (p @ s, d) \<in> set items"
  by (induction p arbitrary: items) (simp_all add: in_itemsBelow)

lemma represents_located:
  "represents t items \<Longrightarrow> (p, n) \<in> set (located t) \<Longrightarrow> represents n (itemsAt p items)"
proof (induction p arbitrary: t items)
  case Nil
  then show ?case by (subst (asm) located_iff) simp
next
  case (Cons seg p)
  from Cons.prems(2) obtain c where c: "c \<in> set (childrenList t)" "name c = seg"
    "(p, n) \<in> set (located c)"
    by (subst (asm) located_iff) auto
  from Cons.prems(1) c(1) have "represents c (itemsBelow (name c) items)"
    by (simp add: represents_iff [of t])
  from Cons.IH [OF this c(3)] c(2) show ?case by simp
qed

lemma find_name:
  "seg \<in> name ` set cs \<Longrightarrow> \<exists>c. find (\<lambda>c. name c = seg) cs = Some c \<and> c \<in> set cs \<and> name c = seg"
  by (cases "find (\<lambda>c. name c = seg) cs") (auto simp: find_None_iff find_Some_iff)

lemma in_heads: "(seg # s, d) \<in> set items \<Longrightarrow> seg \<in> heads items"
  by (force simp: heads_def)

lemma represents_walk:
  "represents t items \<Longrightarrow> (s, d) \<in> set items \<Longrightarrow> \<exists>ns. walk t s = Some ns \<and> map name ns = s"
proof (induction s arbitrary: t items)
  case Nil
  show ?case by simp
next
  case (Cons seg s)
  from Cons.prems have "seg \<in> name ` set (childrenList t)"
    by (simp add: represents_iff [of t] in_heads)
  from find_name [OF this] obtain c where c:
    "find (\<lambda>c. name c = seg) (childrenList t) = Some c" "c \<in> set (childrenList t)" "name c = seg"
    by blast
  from Cons.prems(1) c(2) have "represents c (itemsBelow (name c) items)"
    by (simp add: represents_iff [of t])
  moreover from Cons.prems(2) c(3) have "(s, d) \<in> set (itemsBelow (name c) items)"
    by (simp add: in_itemsBelow)
  ultimately obtain ns where "walk c s = Some ns" "map name ns = s"
    using Cons.IH by blast
  with c show ?case by simp
qed

lemma joinSlash_Cons_char: "joinSlash ((c # s) # ss) = c # joinSlash (s # ss)"
  by (cases ss) simp_all

lemma joinSlash_empty_head: "ss \<noteq> [] \<Longrightarrow> joinSlash ([] # ss) = CHR ''/'' # joinSlash ss"
  by (cases ss) simp_all

section \<open>Paths and walks\<close>

lemma replaceFirst_at_start:
  "take (length pat) s = pat \<Longrightarrow> replaceFirst pat s = drop (length pat) s"
  by (cases s) auto

lemma replaceFirst_prefix: "replaceFirst pat (pat @ r) = r"
  by (simp add: replaceFirst_at_start)

lemma replaceFirst_no_occurrence: "\<not> sublist pat s \<Longrightarrow> replaceFirst pat s = s"
proof (induction s)
  case Nil
  show ?case by simp
next
  case (Cons c cs)
  have "take (length pat) (c # cs) \<noteq> pat"
  proof
    assume "take (length pat) (c # cs) = pat"
    then have "c # cs = [] @ pat @ drop (length pat) (c # cs)"
      by (metis append_Nil append_take_drop_id)
    with Cons.prems show False
      unfolding sublist_def by blast
  qed
  moreover have "\<not> sublist pat cs"
  proof
    assume "sublist pat cs"
    then obtain ps ss where "cs = ps @ pat @ ss"
      unfolding sublist_def by blast
    then have "c # cs = (c # ps) @ pat @ ss"
      by simp
    with Cons.prems show False
      unfolding sublist_def by blast
  qed
  ultimately show ?case
    using Cons.IH by simp
qed

lemma joinSlash_splitSlashes: "noSlashRun r \<Longrightarrow> joinSlash (splitSlashes r) = r"
proof (induction r rule: splitSlashes.induct)
  case 1
  show ?case by (simp add: splitSlashes.simps)
next
  case (2 c cs)
  show ?case
  proof (cases "c = CHR ''/''")
    case True
    show ?thesis
    proof (cases cs)
      case Nil
      with True show ?thesis by (simp add: splitSlashes.simps)
    next
      case (Cons c' cs')
      with "2.prems" True have c': "c' \<noteq> CHR ''/''" and run: "noSlashRun cs"
        by auto
      from "2.IH" True Cons c' run have "joinSlash (splitSlashes cs) = cs" by blast
      moreover have "splitSlashes (c # cs) = [] # splitSlashes cs"
        using True Cons c' by (subst splitSlashes.simps) simp
      ultimately show ?thesis
        using True by (simp add: joinSlash_empty_head)
    qed
  next
    case False
    from "2.prems" have run: "noSlashRun cs"
      by (cases cs) auto
    obtain seg segs where split: "splitSlashes cs = seg # segs"
      using splitSlashes_not_Nil [of cs] by (cases "splitSlashes cs") auto
    from "2.IH" False run have "joinSlash (splitSlashes cs) = cs" by blast
    moreover have "splitSlashes (c # cs) = (c # seg) # segs"
      using False split by (subst splitSlashes.simps) simp
    ultimately show ?thesis
      using split by (simp add: joinSlash_Cons_char)
  qed
qed

text \<open>
  Claim C4, as amended. For an entry of the mapping whose key is not empty, starts with the
  source root and has no two slashes in a row after the root, the walk along the segments
  of the key exists in the tree before compression, and the name of the root followed by
  the names along the walk, joined by slashes, is the key. (An empty key is walked as
  \<^verbatim>\<open><unmapped>\<close>, a run of slashes is one separator, and a root that does not start
  the key stays in front of the path read back: for those keys the path differs.)
\<close>

theorem path_reconstruction:
  assumes "(source, d) \<in> set sourcesData" and "source \<noteq> []"
    and "source = sourceRoot @ rest" and "noSlashRun rest"
  shows "pathAlongWalk (buildTree sourceRoot sourcesData) (pathSegments sourceRoot source)
           = Some source"
proof -
  have segs: "pathSegments sourceRoot source = splitSlashes rest"
    using assms(2,3) by (auto simp: pathSegments_def sourceKey_def replaceFirst_prefix)
  from assms(1) have "(pathSegments sourceRoot source, d) \<in> set (itemsOf sourceRoot sourcesData)"
    by (force simp: itemsOf_def)
  from represents_walk [OF represents_buildTree this] obtain ns where
    ns: "walk (buildTree sourceRoot sourcesData) (pathSegments sourceRoot source) = Some ns"
      "map name ns = pathSegments sourceRoot source"
    by blast
  have "joinSlash (pathSegments sourceRoot source) = rest"
    using assms(4) by (simp add: segs joinSlash_splitSlashes)
  with ns assms(3) show ?thesis
    by (simp add: pathAlongWalk_def)
qed

theorem path_reconstruction_counterexample:
  "pathAlongWalk
     (buildTree [] [(''a//b'', \<lparr>dataResourceBytes = 1, dataUnusedBytes = None, dataDuplicate = None\<rparr>)])
     (pathSegments [] ''a//b'') \<noteq> Some ''a//b''"
  by code_simp

theorem path_reconstruction_witness:
  "(''src/a/c.js'', \<lparr>dataResourceBytes = 50, dataUnusedBytes = Some 20, dataDuplicate = None\<rparr>)
     \<in> set [(''src/a/b.js'', \<lparr>dataResourceBytes = 100, dataUnusedBytes = None, dataDuplicate = None\<rparr>),
         (''src/a/c.js'', \<lparr>dataResourceBytes = 50, dataUnusedBytes = Some 20, dataDuplicate = None\<rparr>)]
   \<and> ''src/a/c.js'' \<noteq> [] \<and> ''src/a/c.js'' = ''src'' @ ''/a/c.js'' \<and> noSlashRun ''/a/c.js''
   \<and> pathAlongWalk
     (buildTree ''src''
        [(''src/a/b.js'', \<lparr>dataResourceBytes = 100, dataUnusedBytes = None, dataDuplicate = None\<rparr>),
         (''src/a/c.js'', \<lparr>dataResourceBytes = 50, dataUnusedBytes = Some 20, dataDuplicate = None\<rparr>)])
     (pathSegments ''src'' ''src/a/c.js'') = Some ''src/a/c.js''"
proof -
  let ?d = "\<lparr>dataResourceBytes = 50, dataUnusedBytes = Some 20, dataDuplicate = None\<rparr>"
  let ?E = "[(''src/a/b.js'', \<lparr>dataResourceBytes = 100, dataUnusedBytes = None, dataDuplicate = None\<rparr>),
         (''src/a/c.js'', ?d)]"
  have a: "(''src/a/c.js'', ?d) \<in> set ?E" by simp
  have b: "''src/a/c.js'' \<noteq> []" by simp
  have c: "''src/a/c.js'' = ''src'' @ ''/a/c.js''" by simp
  have d: "noSlashRun ''/a/c.js''" by simp
  from path_reconstruction [OF a b c d] a b c d show ?thesis
    by (intro conjI)
qed

text \<open>
  Claim C5 says that a source root that is not a prefix of a path leaves the path
  unchanged before it is split. The source strips the root with
  \<^verbatim>\<open>source.replace(sourceRoot, '')\<close>, which removes the first occurrence of the root
  wherever it stands. With the root \<^verbatim>\<open>src\<close> and the path \<^verbatim>\<open>lib/src/a.js\<close> the root is
  not a prefix of the path, and the path is changed all the same: it becomes
  \<^verbatim>\<open>lib//a.js\<close> and is walked as \<^verbatim>\<open>lib\<close>, \<^verbatim>\<open>a.js\<close>.
\<close>

theorem strip_root_inside_path:
  "\<not> prefix ''src'' ''lib/src/a.js'' \<and>
   replaceFirst ''src'' ''lib/src/a.js'' = ''lib//a.js'' \<and>
   pathSegments ''src'' ''lib/src/a.js'' = [''lib'', ''a.js'']"
  by code_simp

section \<open>Sums\<close>

lemma nestFree_itemsBelow: "nestFree items \<Longrightarrow> nestFree (itemsBelow seg items)"
  unfolding nestFree_def
proof (intro ballI, clarify)
  fix s d s' d'
  assume free: "\<forall>(s, d)\<in>set items. \<forall>(s', d')\<in>set items. \<not> strict_prefix s s'"
    and "(s, d) \<in> set (itemsBelow seg items)" "(s', d') \<in> set (itemsBelow seg items)"
    and sp: "strict_prefix s s'"
  then have "(seg # s, d) \<in> set items" "(seg # s', d') \<in> set items"
    by (simp_all add: in_itemsBelow)
  with free have "\<not> strict_prefix (seg # s) (seg # s')" by blast
  with sp show False by simp
qed

lemma nestFree_itemsAt: "nestFree items \<Longrightarrow> nestFree (itemsAt p items)"
  by (induction p arbitrary: items) (simp_all add: nestFree_itemsBelow)

lemma nestFree_no_end:
  assumes "nestFree items" and "heads items \<noteq> {}" and "(s, d) \<in> set items"
  shows "s \<noteq> []"
proof
  assume "s = []"
  from assms(2) obtain s' d' where "(s', d') \<in> set items" "s' \<noteq> []"
    by (auto simp: heads_def)
  with assms(1,3) \<open>s = []\<close> show False
    unfolding nestFree_def by (force simp: strict_prefix_def)
qed

lemma sum_list_single:
  "distinct xs \<Longrightarrow> h \<in> set xs \<Longrightarrow> sum_list (map (\<lambda>x. if h = x then a else (0::nat)) xs) = a"
  by (induction xs) auto

lemma sum_list_zero: "sum_list (map (\<lambda>x. 0::nat) xs) = 0"
  by (induction xs) auto

lemma sum_by_head:
  assumes "\<And>s d. (s, d) \<in> set items \<Longrightarrow> s \<noteq> []" and "distinct xs" and "heads items \<subseteq> set xs"
  shows "sum_list (map (\<lambda>x. sum_list (map (\<lambda>(s, d). (f d :: nat)) (itemsBelow x items))) xs)
           = sum_list (map (\<lambda>(s, d). f d) items)"
  using assms(1,3)
proof (induction items)
  case Nil
  show ?case by (simp add: itemsBelow_def sum_list_zero)
next
  case (Cons i items)
  obtain s0 d0 where i: "i = (s0, d0)" by (cases i)
  with Cons.prems(1) obtain h t where s0: "s0 = h # t"
    by (cases s0) auto
  have h: "h \<in> set xs"
    using Cons.prems(2) in_heads [of h t d0 "i # items"] i s0 by auto
  have sub: "heads items \<subseteq> set xs"
    using Cons.prems(2) by (auto simp: heads_def)
  have ne: "\<And>s d. (s, d) \<in> set items \<Longrightarrow> s \<noteq> []"
    using Cons.prems(1) by auto
  have IH: "sum_list (map (\<lambda>x. sum_list (map (\<lambda>(s, d). f d) (itemsBelow x items))) xs)
           = sum_list (map (\<lambda>(s, d). f d) items)"
    by (rule Cons.IH [OF ne sub])
  have step: "sum_list (map (\<lambda>(s, d). f d) (itemsBelow x (i # items))) =
          (if h = x then f d0 else 0) + sum_list (map (\<lambda>(s, d). f d) (itemsBelow x items))" for x
    by (simp add: itemsBelow_def i s0)
  show ?case
    by (simp only: step sum_list_addf sum_list_single [OF assms(2) h] IH) (simp add: i)
qed

lemma orZero_simps [simp]: "orZero None = 0" "orZero (Some v) = v"
  by (simp_all add: orZero_def)

lemma childrenList_Some: "children n = Some cs \<Longrightarrow> childrenList n = cs"
  by (simp add: childrenList_def)

lemma childrenList_None: "children n = None \<Longrightarrow> childrenList n = []"
  by (simp add: childrenList_def)

lemma represents_wellSummed:
  assumes "represents n items" and "nestFree items"
  shows "wellSummed n"
proof -
  from assms(1) have ub: "unusedBytes n = unusedOf items" and rb: "resourceBytes n = totalResource items"
    by (simp_all add: represents_iff [of n])
  have nz: "unusedBytes n \<noteq> Some 0"
    by (simp add: ub unusedOf_def)
  show ?thesis
  proof (cases "children n")
    case None
    with nz show ?thesis by (simp add: wellSummed_def)
  next
    case (Some cs)
    then have cl: "childrenList n = cs" by (rule childrenList_Some)
    from assms(1) Some cl have rep: "heads items \<noteq> {}" "distinct (map name cs)"
      "name ` set cs = heads items"
      "\<And>c. c \<in> set cs \<Longrightarrow> represents c (itemsBelow (name c) items)"
      by (simp_all add: represents_iff [of n])
    have ne: "\<And>s d. (s, d) \<in> set items \<Longrightarrow> s \<noteq> []"
      using nestFree_no_end [OF assms(2) rep(1)] by blast
    have sub: "heads items \<subseteq> set (map name cs)"
      using rep(3) by simp
    have "sum_list (map resourceBytes cs) =
            sum_list (map (\<lambda>c. totalResource (itemsBelow (name c) items)) cs)"
      using rep(4) by (intro arg_cong [where f = sum_list] map_cong refl)
        (simp add: represents_iff [of _ "itemsBelow _ items"])
    also have "\<dots> = sum_list (map (\<lambda>x. totalResource (itemsBelow x items)) (map name cs))"
      by (simp add: comp_def)
    also have "\<dots> = totalResource items"
      unfolding totalResource_def by (rule sum_by_head [OF ne rep(2) sub])
    finally have r: "resourceBytes n = sum_list (map resourceBytes cs)"
      using rb by simp
    have "sum_list (map (\<lambda>c. orZero (unusedBytes c)) cs) =
            sum_list (map (\<lambda>c. totalUnused (itemsBelow (name c) items)) cs)"
      using rep(4) by (intro arg_cong [where f = sum_list] map_cong refl)
        (simp add: represents_iff [of _ "itemsBelow _ items"])
    also have "\<dots> = sum_list (map (\<lambda>x. totalUnused (itemsBelow x items)) (map name cs))"
      by (simp add: comp_def)
    also have "\<dots> = totalUnused items"
      unfolding totalUnused_def by (rule sum_by_head [OF ne rep(2) sub])
    finally have u: "orZero (unusedBytes n) = sum_list (map (\<lambda>c. orZero (unusedBytes c)) cs)"
      using ub by simp
    from nz r u Some show ?thesis
      by (simp add: wellSummed_def)
  qed
qed

lemma subnodes_located: "set (subnodes t) = snd ` set (located t)"
proof (induction t rule: subnodes.induct)
  case (1 nm rb ub dup cs)
  show ?case
  proof (cases cs)
    case None
    then show ?thesis by simp
  next
    case (Some l)
    have "set (subnodes c) = snd ` set (located c)" if "c \<in> set l" for c
      using 1 Some that by blast
    then have "(\<Union>c\<in>set l. set (subnodes c)) =
      (\<Union>c\<in>set l. snd ` (\<lambda>(p, n). (name c # p, n)) ` set (located c))"
      by (force simp: image_iff)
    with Some show ?thesis
      by (simp add: image_Un image_UN)
  qed
qed

lemma represents_all_wellSummed:
  assumes "represents t items" and "nestFree items" and "n \<in> set (subnodes t)"
  shows "wellSummed n"
proof -
  from assms(3) obtain p where "(p, n) \<in> set (located t)"
    by (auto simp: subnodes_located)
  from represents_located [OF assms(1) this] nestFree_itemsAt [OF assms(2)]
  show ?thesis by (rule represents_wellSummed)
qed

lemma wellSummed_sumsChildren:
  assumes "wellSummed n" and "\<And>c. c \<in> set (childrenList n) \<Longrightarrow> wellSummed c"
  shows "sumsChildren n"
proof (cases "children n")
  case None
  then show ?thesis by (simp add: sumsChildren_def)
next
  case (Some cs)
  then have cl: "childrenList n = cs" by (rule childrenList_Some)
  from assms(1) Some have r: "resourceBytes n = sum_list (map resourceBytes cs)"
    and u: "orZero (unusedBytes n) = sum_list (map (\<lambda>c. orZero (unusedBytes c)) cs)"
    by (simp_all add: wellSummed_def)
  have "unusedBytes n = Some (sum_list (map (\<lambda>c. orZero (unusedBytes c)) cs))"
    if "c \<in> set cs" "unusedBytes c \<noteq> None" for c
  proof -
    from that assms(2) [of c] cl obtain v where v: "unusedBytes c = Some v" "v \<noteq> 0"
      by (auto simp: wellSummed_def)
    have "orZero (unusedBytes c) \<le> sum_list (map (\<lambda>c. orZero (unusedBytes c)) cs)"
      using that(1) by (induction cs) auto
    with v have "0 < sum_list (map (\<lambda>c. orZero (unusedBytes c)) cs)"
      by simp
    with u have "0 < orZero (unusedBytes n)"
      by simp
    then obtain w where "unusedBytes n = Some w"
      by (cases "unusedBytes n") simp_all
    with u show ?thesis
      by simp
  qed
  with r Some show ?thesis
    by (auto simp: sumsChildren_def)
qed

section \<open>What chain compression keeps\<close>

lemma singleChild_iff: "singleChild t \<longleftrightarrow> (\<exists>c. children t = Some [c])"
  by (auto simp: singleChild_def length_Suc_conv split: option.splits)

lemma collapseChain_metrics:
  "resourceBytes (collapseChain t) = resourceBytes t \<and>
   unusedBytes (collapseChain t) = unusedBytes t \<and>
   duplicate (collapseChain t) = duplicate t"
proof (induction t rule: collapseChain.induct)
  case (1 nm rb ub dup cs)
  show ?case
  proof (cases "singleChild (Node nm rb ub dup cs)")
    case True
    then obtain c where "cs = Some [c]"
      by (auto simp: singleChild_iff)
    with 1 show ?thesis by (simp add: collapseChain_single)
  next
    case False
    then show ?thesis by (simp add: collapseChain_fixed)
  qed
qed

lemma collapseChain_fields [simp]:
  "resourceBytes (collapseChain t) = resourceBytes t"
  "unusedBytes (collapseChain t) = unusedBytes t"
  "duplicate (collapseChain t) = duplicate t"
  using collapseChain_metrics [of t] by simp_all

lemma collapseAll_fields [simp]:
  "resourceBytes (collapseAll t) = resourceBytes t"
  "unusedBytes (collapseAll t) = unusedBytes t"
  "duplicate (collapseAll t) = duplicate t"
  by (simp_all add: collapseAll_unfold [of t])

lemma childrenList_collapseAll:
  "childrenList (collapseAll t) = map collapseAll (childrenList (collapseChain t))"
  by (simp add: childrenList_def children_collapseAll split: option.splits)

lemma collapseAll_leaf: "children t = None \<Longrightarrow> collapseAll t = t"
proof -
  assume none: "children t = None"
  then have "collapseChain t = t"
    by (intro collapseChain_fixed) (simp add: singleChild_def)
  then have "collapseAll t = setChildren (map_option (map collapseAll) (children t)) t"
    by (subst collapseAll_unfold) simp
  with none show ?thesis
    by (cases t) simp
qed

lemma set_subnodes_descendants: "set (subnodes n) = insert n (set (descendants n))"
  by (subst set_subnodes) (auto simp: descendants_def childrenList_def split: option.splits)

lemma self_in_subnodes: "n \<in> set (subnodes n)"
  by (simp add: set_subnodes_descendants)

lemma descendants_single:
  "set (descendants (Node nm rb ub dup (Some [c]))) = set (subnodes c)"
  by (simp add: descendants_def childrenList_def)

lemma descendants_merged:
  "set (descendants (Node nm' rb ub dup (children c))) \<subseteq> set (descendants (Node nm rb ub dup (Some [c])))"
proof -
  have "descendants (Node nm' rb ub dup (children c)) = descendants c"
    by (simp add: descendants_def childrenList_def)
  then show ?thesis
    unfolding descendants_single by (auto simp: set_subnodes_descendants)
qed

lemma child_in_descendants:
  "c \<in> set (childrenList t) \<Longrightarrow> k \<in> set (subnodes c) \<Longrightarrow> k \<in> set (descendants t)"
  by (auto simp: descendants_def)

lemma descendants_collapseChain: "set (descendants (collapseChain t)) \<subseteq> set (descendants t)"
proof (induction t rule: collapseChain.induct)
  case (1 nm rb ub dup cs)
  show ?case
  proof (cases "singleChild (Node nm rb ub dup cs)")
    case True
    then obtain c where c: "cs = Some [c]"
      by (auto simp: singleChild_iff)
    have "set (descendants (Node (nm @ ''/'' @ name c) rb ub dup (children c)))
        \<subseteq> set (descendants (Node nm rb ub dup cs))"
      unfolding c by (rule descendants_merged)
    with "1.IH" [OF c refl refl] show ?thesis
      by (simp add: c collapseChain_single)
  next
    case False
    then show ?thesis by (simp add: collapseChain_fixed)
  qed
qed

lemma wellSummed_collapseChain:
  "wellSummed t \<Longrightarrow> (\<And>m. m \<in> set (descendants t) \<Longrightarrow> wellSummed m) \<Longrightarrow>
     wellSummed (collapseChain t)"
proof (induction t rule: collapseChain.induct)
  case (1 nm rb ub dup cs)
  show ?case
  proof (cases "singleChild (Node nm rb ub dup cs)")
    case True
    then obtain c where c: "cs = Some [c]"
      by (auto simp: singleChild_iff)
    let ?merged = "Node (nm @ ''/'' @ name c) rb ub dup (children c)"
    have "c \<in> set (descendants (Node nm rb ub dup cs))"
      unfolding c descendants_single by (rule self_in_subnodes)
    then have wc: "wellSummed c" by (rule "1.prems"(2))
    from "1.prems"(1) c have t: "ub \<noteq> Some 0" "rb = resourceBytes c" "orZero ub = orZero (unusedBytes c)"
      by (simp_all add: wellSummed_def)
    have merged: "wellSummed ?merged"
      using wc t by (cases "children c") (simp_all add: wellSummed_def)
    have "set (descendants ?merged) \<subseteq> set (descendants (Node nm rb ub dup cs))"
      unfolding c by (rule descendants_merged)
    with "1.prems"(2) have "\<And>m. m \<in> set (descendants ?merged) \<Longrightarrow> wellSummed m"
      by blast
    from "1.IH" [OF c refl refl merged this] show ?thesis
      by (simp add: c collapseChain_single)
  next
    case False
    with "1.prems"(1) show ?thesis by (simp add: collapseChain_fixed)
  qed
qed

lemma wellSummed_collapseAll_root: "wellSummed (collapseAll t) = wellSummed (collapseChain t)"
  by (cases "children (collapseChain t)")
     (simp_all add: wellSummed_def children_collapseAll comp_def)

lemma wellSummed_collapseAll:
  "(\<And>m. m \<in> set (subnodes t) \<Longrightarrow> wellSummed m) \<Longrightarrow> m \<in> set (subnodes (collapseAll t)) \<Longrightarrow>
     wellSummed m"
proof (induction t arbitrary: m rule: collapseAll.induct)
  case (1 node)
  have below: "wellSummed k" if "k \<in> set (descendants (collapseChain node))" for k
    using that descendants_collapseChain [of node] "1.prems"(1)
    by (auto simp: set_subnodes_descendants)
  have root: "wellSummed (collapseAll node)"
    unfolding wellSummed_collapseAll_root
    by (rule wellSummed_collapseChain) (auto simp: "1.prems"(1) set_subnodes_descendants)
  from "1.prems"(2) consider "m = collapseAll node"
    | c where "c \<in> set (childrenList (collapseChain node))" "m \<in> set (subnodes (collapseAll c))"
    by (subst (asm) set_subnodes_descendants) (auto simp: descendants_def childrenList_collapseAll)
  then show ?case
  proof cases
    case 1
    with root show ?thesis by simp
  next
    case 2
    from 2(1) obtain cs where cs: "children (collapseChain node) = Some cs" "c \<in> set cs"
      by (cases "children (collapseChain node)") (simp_all add: childrenList_def)
    have "wellSummed k" if "k \<in> set (subnodes c)" for k
      by (rule below) (rule child_in_descendants [OF 2(1) that])
    from "1.IH" [OF refl cs this 2(2)] show ?thesis .
  qed
qed

lemma located_trans:
  "(q, c) \<in> set (located t) \<Longrightarrow> (p, n) \<in> set (located c) \<Longrightarrow> (q @ p, n) \<in> set (located t)"
proof (induction q arbitrary: t)
  case Nil
  then show ?case by (subst (asm) located_iff) simp
next
  case (Cons seg q)
  from Cons.prems(1) obtain k where k: "k \<in> set (childrenList t)" "name k = seg"
    "(q, c) \<in> set (located k)"
    by (subst (asm) located_iff) auto
  from Cons.IH [OF k(3) Cons.prems(2)] k(1,2) show ?case
    by (subst located_iff) auto
qed

lemma located_child: "c \<in> set (childrenList t) \<Longrightarrow> ([name c], c) \<in> set (located t)"
  by (subst located_iff, subst located_iff) auto

lemma located_collapseChain_children:
  "c \<in> set (childrenList (collapseChain t)) \<Longrightarrow> \<exists>q. q \<noteq> [] \<and> (q, c) \<in> set (located t)"
proof (induction t rule: collapseChain.induct)
  case (1 nm rb ub dup cs)
  show ?case
  proof (cases "singleChild (Node nm rb ub dup cs)")
    case True
    then obtain k where k: "cs = Some [k]"
      by (auto simp: singleChild_iff)
    let ?merged = "Node (nm @ ''/'' @ name k) rb ub dup (children k)"
    from "1.prems" k have "c \<in> set (childrenList (collapseChain ?merged))"
      by (simp add: collapseChain_single)
    from "1.IH" [OF k refl refl this] obtain q where q: "q \<noteq> []" "(q, c) \<in> set (located ?merged)"
      by blast
    then obtain seg q' where "q = seg # q'" by (cases q) auto
    with q(2) have "(q, c) \<in> set (located k)"
      by (subst located_iff, subst (asm) located_iff) (simp add: childrenList_def)
    moreover have "([name k], k) \<in> set (located (Node nm rb ub dup cs))"
      by (rule located_child) (simp add: childrenList_def k)
    ultimately have "([name k] @ q, c) \<in> set (located (Node nm rb ub dup cs))"
      by (rule located_trans [rotated])
    then show ?thesis by blast
  next
    case False
    with "1.prems" have "c \<in> set (childrenList (Node nm rb ub dup cs))"
      by (simp add: collapseChain_fixed)
    from located_child [OF this] show ?thesis by blast
  qed
qed

lemma subnodes_collapseAll_origin:
  "m \<in> set (subnodes (collapseAll t)) \<Longrightarrow> \<exists>p n. (p, n) \<in> set (located t) \<and> m = collapseAll n"
proof (induction t arbitrary: m rule: collapseAll.induct)
  case (1 node)
  from "1.prems" consider "m = collapseAll node"
    | c where "c \<in> set (childrenList (collapseChain node))" "m \<in> set (subnodes (collapseAll c))"
    by (subst (asm) set_subnodes_descendants) (auto simp: descendants_def childrenList_collapseAll)
  then show ?case
  proof cases
    case 1
    have "([], node) \<in> set (located node)"
      by (subst located_iff) simp
    with 1 show ?thesis by blast
  next
    case 2
    from 2(1) obtain cs where cs: "children (collapseChain node) = Some cs" "c \<in> set cs"
      by (cases "children (collapseChain node)") (simp_all add: childrenList_def)
    from "1.IH" [OF refl cs 2(2)] obtain p n where pn: "(p, n) \<in> set (located c)" "m = collapseAll n"
      by blast
    from located_collapseChain_children [OF 2(1)] obtain q where "(q, c) \<in> set (located node)"
      by blast
    from located_trans [OF this pn(1)] pn(2) show ?thesis by blast
  qed
qed

section \<open>The sums of the children\<close>

lemma noNesting_nestFree:
  "noNesting sourceRoot sourcesData \<longleftrightarrow> nestFree (itemsOf sourceRoot sourcesData)"
  unfolding noNesting_def nestFree_def itemsOf_def by (simp add: split_beta)

lemma subnodes_child:
  assumes "n \<in> set (subnodes t)" and "c \<in> set (childrenList n)"
  shows "c \<in> set (subnodes t)"
proof -
  from assms(1) obtain p where "(p, n) \<in> set (located t)"
    by (auto simp: subnodes_located)
  from located_trans [OF this located_child [OF assms(2)]] show ?thesis
    by (force simp: subnodes_located)
qed

lemma all_wellSummed_sumsChildren:
  assumes "\<And>m. m \<in> set (subnodes t) \<Longrightarrow> wellSummed m" and "n \<in> set (subnodes t)"
  shows "sumsChildren n"
  by (rule wellSummed_sumsChildren) (auto intro: assms subnodes_child)

text \<open>
  Claim C1, as amended. When no source lies below another one (no list of segments of a
  key is a proper prefix of the list of another key), every node with children, in the
  tree built by the insertion of the paths and in the tree that \<^verbatim>\<open>prepareTreemapNodes\<close>
  returns, has the sum of the resource bytes of its children as its resource bytes and,
  when a child has unused bytes, the sum of the unused bytes of its children (an absent
  field counting as zero) as its unused bytes.
\<close>

theorem children_sums:
  assumes "noNesting sourceRoot sourcesData"
  shows "(\<forall>n \<in> set (subnodes (buildTree sourceRoot sourcesData)). sumsChildren n) \<and>
         (\<forall>n \<in> set (subnodes (prepareTreemapNodes sourceRoot sourcesData)). sumsChildren n)"
proof -
  let ?built = "buildTree sourceRoot sourcesData"
  from assms have free: "nestFree (itemsOf sourceRoot sourcesData)"
    by (simp add: noNesting_nestFree)
  have built: "wellSummed m" if "m \<in> set (subnodes ?built)" for m
    using represents_buildTree free that by (rule represents_all_wellSummed)
  have final: "wellSummed m" if "m \<in> set (subnodes (collapseAll ?built))" for m
    using built that by (rule wellSummed_collapseAll)
  show ?thesis
    unfolding prepareTreemapNodes_def
    using all_wellSummed_sumsChildren [of ?built] all_wellSummed_sumsChildren [of "collapseAll ?built"]
      built final
    by blast
qed

theorem children_sums_witness:
  "noNesting []
     [(''a/b.js'', \<lparr>dataResourceBytes = 100, dataUnusedBytes = None, dataDuplicate = None\<rparr>),
      (''a/c.js'', \<lparr>dataResourceBytes = 50, dataUnusedBytes = Some 20, dataDuplicate = None\<rparr>)] \<and>
   list_all sumsChildren (subnodes (buildTree []
       [(''a/b.js'', \<lparr>dataResourceBytes = 100, dataUnusedBytes = None, dataDuplicate = None\<rparr>),
        (''a/c.js'', \<lparr>dataResourceBytes = 50, dataUnusedBytes = Some 20, dataDuplicate = None\<rparr>)])) \<and>
   list_all sumsChildren (subnodes (prepareTreemapNodes []
       [(''a/b.js'', \<lparr>dataResourceBytes = 100, dataUnusedBytes = None, dataDuplicate = None\<rparr>),
        (''a/c.js'', \<lparr>dataResourceBytes = 50, dataUnusedBytes = Some 20, dataDuplicate = None\<rparr>)]))"
proof -
  have h: "noNesting []
     [(''a/b.js'', \<lparr>dataResourceBytes = 100, dataUnusedBytes = None, dataDuplicate = None\<rparr>),
      (''a/c.js'', \<lparr>dataResourceBytes = 50, dataUnusedBytes = Some 20, dataDuplicate = None\<rparr>)]"
    by code_simp
  from children_sums [OF h] h show ?thesis
    unfolding list_all_iff by (intro conjI) simp_all
qed

theorem children_sums_counterexample:
  "Node ''a'' 6 None None (Some [Node ''b'' 2 None None None, Node ''c'' 3 None None None])
     \<in> set (subnodes (buildTree []
         [(''a'', \<lparr>dataResourceBytes = 1, dataUnusedBytes = None, dataDuplicate = None\<rparr>),
          (''a/b'', \<lparr>dataResourceBytes = 2, dataUnusedBytes = None, dataDuplicate = None\<rparr>),
          (''a/c'', \<lparr>dataResourceBytes = 3, dataUnusedBytes = None, dataDuplicate = None\<rparr>)])) \<and>
   \<not> sumsChildren
       (Node ''a'' 6 None None (Some [Node ''b'' 2 None None None, Node ''c'' 3 None None None])) \<and>
   prepareTreemapNodes []
         [(''a'', \<lparr>dataResourceBytes = 1, dataUnusedBytes = None, dataDuplicate = None\<rparr>),
          (''a/b'', \<lparr>dataResourceBytes = 2, dataUnusedBytes = None, dataDuplicate = None\<rparr>),
          (''a/c'', \<lparr>dataResourceBytes = 3, dataUnusedBytes = None, dataDuplicate = None\<rparr>)]
     = Node ''/a'' 6 None None (Some [Node ''b'' 2 None None None, Node ''c'' 3 None None None]) \<and>
   \<not> sumsChildren
       (Node ''/a'' 6 None None (Some [Node ''b'' 2 None None None, Node ''c'' 3 None None None]))"
  by code_simp

section \<open>Unused bytes and duplicate keys\<close>

lemma totalUnused_zero:
  "totalUnused items = 0 \<longleftrightarrow> (\<forall>x \<in> set items. \<not> truthy (dataUnusedBytes (snd x)))"
  unfolding totalUnused_def by (auto simp: truthy_orZero case_prod_beta)

lemma unusedOf_present:
  "unusedOf items \<noteq> None \<longleftrightarrow> (\<exists>x \<in> set items. truthy (dataUnusedBytes (snd x)))"
  using totalUnused_zero [of items] by (cases "totalUnused items = 0") (simp_all add: unusedOf_def)


lemma bex_itemsAt:
  "(\<exists>x \<in> set (itemsAt p items). Q (snd x)) \<longleftrightarrow> (\<exists>x \<in> set items. prefix p (fst x) \<and> Q (snd x))"
proof
  assume "\<exists>x \<in> set (itemsAt p items). Q (snd x)"
  then obtain s d where "(s, d) \<in> set (itemsAt p items)" "Q d"
    by auto
  then have "(p @ s, d) \<in> set items" "prefix p (fst (p @ s, d))" "Q (snd (p @ s, d))"
    by (simp_all add: in_itemsAt)
  then show "\<exists>x \<in> set items. prefix p (fst x) \<and> Q (snd x)"
    by blast
next
  assume "\<exists>x \<in> set items. prefix p (fst x) \<and> Q (snd x)"
  then obtain s' d where x: "(s', d) \<in> set items" "prefix p s'" "Q d"
    by auto
  from x(2) obtain s where "s' = p @ s"
    by (auto elim: prefixE)
  with x(1) have "(s, d) \<in> set (itemsAt p items)"
    by (simp add: in_itemsAt)
  with x(3) show "\<exists>x \<in> set (itemsAt p items). Q (snd x)"
    by force
qed

lemma bex_itemsOf:
  "(\<exists>x \<in> set (itemsOf sourceRoot sourcesData). Q (fst x) (snd x)) \<longleftrightarrow>
     (\<exists>(source, d) \<in> set sourcesData. Q (pathSegments sourceRoot source) d)"
  by (simp add: itemsOf_def case_prod_beta)

lemma unusedBytes_located:
  assumes "(p, n) \<in> set (located (buildTree sourceRoot sourcesData))"
  shows "unusedBytes n \<noteq> None \<longleftrightarrow>
           (\<exists>(source, d) \<in> set sourcesData.
              prefix p (pathSegments sourceRoot source) \<and> truthy (dataUnusedBytes d))"
proof -
  let ?items = "itemsOf sourceRoot sourcesData"
  from represents_located [OF represents_buildTree assms]
  have "unusedBytes n = unusedOf (itemsAt p ?items)"
    by (simp add: represents_iff [of n])
  then have "unusedBytes n \<noteq> None \<longleftrightarrow>
      (\<exists>x \<in> set (itemsAt p ?items). truthy (dataUnusedBytes (snd x)))"
    using unusedOf_present [of "itemsAt p ?items"] by simp
  also have "\<dots> \<longleftrightarrow> (\<exists>x \<in> set ?items. prefix p (fst x) \<and> truthy (dataUnusedBytes (snd x)))"
    by (rule bex_itemsAt)
  also have "\<dots> \<longleftrightarrow> (\<exists>(source, d) \<in> set sourcesData.
              prefix p (pathSegments sourceRoot source) \<and> truthy (dataUnusedBytes d))"
    by (rule bex_itemsOf)
  finally show ?thesis .
qed

text \<open>
  Claim C3, as amended. Every node of the tree that \<^verbatim>\<open>prepareTreemapNodes\<close> returns is the
  compression of a node of the tree built by insertion, and it carries the field
  \<^verbatim>\<open>unusedBytes\<close> if and only if an entry whose walk passed that node (the position of the
  node is a prefix of the segments of its key) has unused bytes that are defined and not
  zero. The field is never the number zero. (An entry with \<^verbatim>\<open>unusedBytes: 0\<close> has a
  defined value, and the test \<^verbatim>\<open>if (data.unusedBytes)\<close> passes it by like an absent one.)
\<close>

theorem unusedBytes_presence:
  assumes "m \<in> set (subnodes (prepareTreemapNodes sourceRoot sourcesData))"
  shows "unusedBytes m \<noteq> Some 0 \<and>
         (\<exists>(p, n) \<in> set (located (buildTree sourceRoot sourcesData)). m = collapseAll n) \<and>
         (\<forall>(p, n) \<in> set (located (buildTree sourceRoot sourcesData)). m = collapseAll n \<longrightarrow>
            (unusedBytes m \<noteq> None \<longleftrightarrow>
               (\<exists>(source, d) \<in> set sourcesData.
                  prefix p (pathSegments sourceRoot source) \<and> truthy (dataUnusedBytes d))))"
proof (intro conjI)
  let ?built = "buildTree sourceRoot sourcesData"
  from assms obtain p n where pn: "(p, n) \<in> set (located ?built)" "m = collapseAll n"
    unfolding prepareTreemapNodes_def using subnodes_collapseAll_origin by blast
  then show "\<exists>(p, n) \<in> set (located ?built). m = collapseAll n"
    by blast
  from represents_located [OF represents_buildTree pn(1)]
  have "unusedBytes n = unusedOf (itemsAt p (itemsOf sourceRoot sourcesData))"
    by (simp add: represents_iff [of n])
  with pn(2) show "unusedBytes m \<noteq> Some 0"
    by (simp add: unusedOf_def)
  have "unusedBytes m \<noteq> None \<longleftrightarrow>
          (\<exists>(source, d) \<in> set sourcesData.
             prefix q (pathSegments sourceRoot source) \<and> truthy (dataUnusedBytes d))"
    if "(q, k) \<in> set (located ?built)" "m = collapseAll k" for q k
    using unusedBytes_located [OF that(1)] that(2) by simp
  then show "\<forall>(p, n) \<in> set (located ?built). m = collapseAll n \<longrightarrow>
            (unusedBytes m \<noteq> None \<longleftrightarrow>
               (\<exists>(source, d) \<in> set sourcesData.
                  prefix p (pathSegments sourceRoot source) \<and> truthy (dataUnusedBytes d)))"
    by blast
qed

theorem unusedBytes_presence_witness:
  "Node ''c.js'' 50 (Some 20) None None
     \<in> set (subnodes (prepareTreemapNodes []
         [(''a/b.js'', \<lparr>dataResourceBytes = 100, dataUnusedBytes = None, dataDuplicate = None\<rparr>),
          (''a/c.js'', \<lparr>dataResourceBytes = 50, dataUnusedBytes = Some 20, dataDuplicate = None\<rparr>)])) \<and>
   ([''a'', ''c.js''], Node ''c.js'' 50 (Some 20) None None)
     \<in> set (located (buildTree []
         [(''a/b.js'', \<lparr>dataResourceBytes = 100, dataUnusedBytes = None, dataDuplicate = None\<rparr>),
          (''a/c.js'', \<lparr>dataResourceBytes = 50, dataUnusedBytes = Some 20, dataDuplicate = None\<rparr>)])) \<and>
   Node ''c.js'' 50 (Some 20) None None = collapseAll (Node ''c.js'' 50 (Some 20) None None) \<and>
   unusedBytes (Node ''c.js'' 50 (Some 20) None None) \<noteq> Some 0 \<and>
   (unusedBytes (Node ''c.js'' 50 (Some 20) None None) \<noteq> None \<longleftrightarrow>
      (\<exists>(source, d) \<in> set
          [(''a/b.js'', \<lparr>dataResourceBytes = 100, dataUnusedBytes = None, dataDuplicate = None\<rparr>),
           (''a/c.js'', \<lparr>dataResourceBytes = 50, dataUnusedBytes = Some 20, dataDuplicate = None\<rparr>)].
         prefix [''a'', ''c.js''] (pathSegments [] source) \<and> truthy (dataUnusedBytes d)))"
proof -
  let ?E = "[(''a/b.js'', \<lparr>dataResourceBytes = 100, dataUnusedBytes = None, dataDuplicate = None\<rparr>),
          (''a/c.js'', \<lparr>dataResourceBytes = 50, dataUnusedBytes = Some 20, dataDuplicate = None\<rparr>)]"
  let ?m = "Node ''c.js'' 50 (Some 20) None None"
  have h: "?m \<in> set (subnodes (prepareTreemapNodes [] ?E))"
    by code_simp
  have l: "([''a'', ''c.js''], ?m) \<in> set (located (buildTree [] ?E))"
    by code_simp
  have c: "?m = collapseAll ?m"
    by (simp add: collapseAll_leaf)
  from unusedBytes_presence [OF h] have z: "unusedBytes ?m \<noteq> Some 0"
    and "\<forall>(p, n) \<in> set (located (buildTree [] ?E)). ?m = collapseAll n \<longrightarrow>
            (unusedBytes ?m \<noteq> None \<longleftrightarrow>
               (\<exists>(source, d) \<in> set ?E.
                  prefix p (pathSegments [] source) \<and> truthy (dataUnusedBytes d)))"
    by blast+
  with l c have "unusedBytes ?m \<noteq> None \<longleftrightarrow>
      (\<exists>(source, d) \<in> set ?E.
         prefix [''a'', ''c.js''] (pathSegments [] source) \<and> truthy (dataUnusedBytes d))"
    by blast
  with h l c z show ?thesis
    by (intro conjI)
qed

theorem unusedBytes_presence_counterexample:
  "dataUnusedBytes \<lparr>dataResourceBytes = 10, dataUnusedBytes = Some 0, dataDuplicate = None\<rparr> \<noteq> None \<and>
   prepareTreemapNodes []
     [(''a.js'', \<lparr>dataResourceBytes = 10, dataUnusedBytes = Some 0, dataDuplicate = None\<rparr>)]
     = Node ''/a.js'' 10 None None None"
  by code_simp






text \<open>
  Claim C2 says that chain compression leaves the resource bytes, the unused bytes and
  the duplicate key of every leaf unchanged. The mapping
  \<^verbatim>\<open>{'x/y/z.js': {resourceBytes: 10, unusedBytes: 5, duplicate: 'z.js'}}\<close> gives a tree
  whose only leaf, \<^verbatim>\<open>z.js\<close>, carries the duplicate key. \<^verbatim>\<open>collapseAll\<close> merges the chain
  into the root: the root takes the name and the children of its only child, and nothing
  else. The only leaf of the tree returned is the root, with the 10 resource bytes and the
  5 unused bytes, and without the duplicate key of the leaf.
\<close>

theorem collapsed_leaf_loses_duplicate:
  "leaves (buildTree []
     [(''x/y/z.js'', \<lparr>dataResourceBytes = 10, dataUnusedBytes = Some 5, dataDuplicate = Some ''z.js''\<rparr>)])
     = [Node ''z.js'' 10 (Some 5) (Some ''z.js'') None] \<and>
   leaves (prepareTreemapNodes []
     [(''x/y/z.js'', \<lparr>dataResourceBytes = 10, dataUnusedBytes = Some 5, dataDuplicate = Some ''z.js''\<rparr>)])
     = [Node ''/x/y/z.js'' 10 (Some 5) None None]"
  by code_simp

section \<open>Scripts without a bundle or without coverage\<close>

text \<open>
  Claim C9. For a script element with a \<^verbatim>\<open>src\<close> that no bundle matches, or for which
  \<^verbatim>\<open>JsUsage\<close> has no coverage, the body of the loop builds the container named as the
  \<^verbatim>\<open>src\<close> whose node is a leaf named as the \<^verbatim>\<open>src\<close>, with the length of the \<^verbatim>\<open>src\<close> as
  resource bytes and no other field, and the list that \<^verbatim>\<open>makeRootNodes\<close> returns holds that
  container.
\<close>

theorem script_without_data:
  assumes "scriptElement \<in> set (ScriptElements artifacts)"
    and "src scriptElement = Some s" and "s \<noteq> []"
    and "find (\<lambda>bundle. scriptSrc bundle = Some s) bundles = None \<or> JsUsage artifacts s = None"
  shows "scriptContainer artifacts bundles duplicationByPath normalizeSource summaryRequest s
           = \<lparr>containerName = s, containerNode = Node s (length s) None None None\<rparr> \<and>
         \<lparr>containerName = s, containerNode = Node s (length s) None None None\<rparr>
           \<in> set (makeRootNodes artifacts bundles duplicationByPath normalizeSource summaryRequest)"
proof -
  from assms(4) have c: "scriptContainer artifacts bundles duplicationByPath normalizeSource summaryRequest s
           = \<lparr>containerName = s, containerNode = Node s (length s) None None None\<rparr>"
    by (auto simp: scriptContainer_def split: option.splits)
  from assms(1,2,3) have "scriptContainer artifacts bundles duplicationByPath normalizeSource summaryRequest s
      \<in> set (makeRootNodes artifacts bundles duplicationByPath normalizeSource summaryRequest)"
    by (force simp: makeRootNodes_def)
  with c show ?thesis by simp
qed

theorem script_without_data_witness:
  "\<lparr>src = Some ''https://example.com/a.js'', content = None\<rparr>
     \<in> set (ScriptElements
         \<lparr>ScriptElements =
            [\<lparr>src = None, content = Some ''let x;''\<rparr>,
             \<lparr>src = Some ''https://example.com/a.js'', content = None\<rparr>],
          finalUrl = ''https://example.com/'', JsUsage = (\<lambda>url. None :: unit option)\<rparr>) \<and>
   src \<lparr>src = Some ''https://example.com/a.js'', content = None\<rparr> = Some ''https://example.com/a.js'' \<and>
   ''https://example.com/a.js'' \<noteq> [] \<and>
   (find (\<lambda>bundle. scriptSrc bundle = Some ''https://example.com/a.js'') [] = None \<or>
    JsUsage \<lparr>ScriptElements =
            [\<lparr>src = None, content = Some ''let x;''\<rparr>,
             \<lparr>src = Some ''https://example.com/a.js'', content = None\<rparr>],
          finalUrl = ''https://example.com/'', JsUsage = (\<lambda>url. None :: unit option)\<rparr>
      ''https://example.com/a.js'' = None) \<and>
   makeRootNodes
     \<lparr>ScriptElements =
            [\<lparr>src = None, content = Some ''let x;''\<rparr>,
             \<lparr>src = Some ''https://example.com/a.js'', content = None\<rparr>],
          finalUrl = ''https://example.com/'', JsUsage = (\<lambda>url. None :: unit option)\<rparr>
     [] {} (\<lambda>source. source)
     (\<lambda>url cov bundle. \<lparr>totalBytes = 0, wastedBytes = 0, sourcesWastedBytes = None\<rparr>)
   = [\<lparr>containerName = ''https://example.com/'',
       containerNode = Node ''https://example.com/'' 6 None None None\<rparr>,
      \<lparr>containerName = ''https://example.com/a.js'',
       containerNode = Node ''https://example.com/a.js'' 24 None None None\<rparr>]"
proof -
  let ?se = "\<lparr>src = Some ''https://example.com/a.js'', content = None\<rparr>"
  let ?art = "\<lparr>ScriptElements =
            [\<lparr>src = None, content = Some ''let x;''\<rparr>, ?se],
          finalUrl = ''https://example.com/'', JsUsage = (\<lambda>url. None :: unit option)\<rparr>"
  let ?req = "\<lambda>(url :: string) (cov :: unit) (bundle :: Bundle).
     \<lparr>totalBytes = 0, wastedBytes = 0, sourcesWastedBytes = None\<rparr>"
  have a: "?se \<in> set (ScriptElements ?art)" by simp
  have b: "src ?se = Some ''https://example.com/a.js''" by simp
  have c: "''https://example.com/a.js'' \<noteq> []" by simp
  have d: "find (\<lambda>bundle. scriptSrc bundle = Some ''https://example.com/a.js'') [] = None \<or>
    JsUsage ?art ''https://example.com/a.js'' = None" by simp
  from script_without_data [OF a b c d, of "{}" "\<lambda>source. source" ?req]
  have e: "scriptContainer ?art [] {} (\<lambda>source. source) ?req ''https://example.com/a.js''
           = \<lparr>containerName = ''https://example.com/a.js'',
              containerNode = Node ''https://example.com/a.js'' 24 None None None\<rparr>"
    by simp
  have f: "makeRootNodes ?art [] {} (\<lambda>source. source) ?req
    = [\<lparr>containerName = ''https://example.com/'',
       containerNode = Node ''https://example.com/'' 6 None None None\<rparr>,
      scriptContainer ?art [] {} (\<lambda>source. source) ?req ''https://example.com/a.js'']"
    by (simp add: makeRootNodes_def inlineScriptLength_def hasSrc_def)
  from a b c d f e show ?thesis
    by simp
qed

section \<open>The leaves under chain compression\<close>

lemma leaves_unfold:
  "leaves n = (case children n of None \<Rightarrow> [n] | Some l \<Rightarrow> concat (map leaves l))"
  by (cases n) (simp split: option.splits)

lemma option_eq_orZero:
  "a \<noteq> Some 0 \<Longrightarrow> b \<noteq> Some 0 \<Longrightarrow> orZero a = orZero b \<Longrightarrow> a = b"
  by (cases a; cases b) simp_all

lemma leaves_collapseChain:
  "wellSummed t \<Longrightarrow> (\<And>m. m \<in> set (descendants t) \<Longrightarrow> wellSummed m) \<Longrightarrow>
     map (\<lambda>n. (resourceBytes n, unusedBytes n)) (leaves (collapseChain t)) =
     map (\<lambda>n. (resourceBytes n, unusedBytes n)) (leaves t)"
proof (induction t rule: collapseChain.induct)
  case (1 nm rb ub dup cs)
  show ?case
  proof (cases "singleChild (Node nm rb ub dup cs)")
    case True
    then obtain c where c: "cs = Some [c]"
      by (auto simp: singleChild_iff)
    let ?merged = "Node (nm @ ''/'' @ name c) rb ub dup (children c)"
    have "c \<in> set (descendants (Node nm rb ub dup cs))"
      unfolding c descendants_single by (rule self_in_subnodes)
    then have wc: "wellSummed c" by (rule "1.prems"(2))
    from "1.prems"(1) c have t: "ub \<noteq> Some 0" "rb = resourceBytes c" "orZero ub = orZero (unusedBytes c)"
      by (simp_all add: wellSummed_def)
    have merged: "wellSummed ?merged"
      using wc t by (cases "children c") (simp_all add: wellSummed_def)
    have "set (descendants ?merged) \<subseteq> set (descendants (Node nm rb ub dup cs))"
      unfolding c by (rule descendants_merged)
    with "1.prems"(2) have below: "\<And>m. m \<in> set (descendants ?merged) \<Longrightarrow> wellSummed m"
      by blast
    have "ub = unusedBytes c"
      using t(1,3) wc by (intro option_eq_orZero) (simp_all add: wellSummed_def)
    with t(2) have "map (\<lambda>n. (resourceBytes n, unusedBytes n)) (leaves ?merged) =
        map (\<lambda>n. (resourceBytes n, unusedBytes n)) (leaves c)"
      by (cases "children c") (simp_all add: leaves_unfold [of c])
    with "1.IH" [OF c refl refl merged below] show ?thesis
      by (simp add: c collapseChain_single)
  next
    case False
    then show ?thesis by (simp add: collapseChain_fixed)
  qed
qed

lemma leaves_collapseAll:
  "(\<And>m. m \<in> set (subnodes t) \<Longrightarrow> wellSummed m) \<Longrightarrow>
     map (\<lambda>n. (resourceBytes n, unusedBytes n)) (leaves (collapseAll t)) =
     map (\<lambda>n. (resourceBytes n, unusedBytes n)) (leaves t)"
proof (induction t rule: collapseAll.induct)
  case (1 node)
  let ?f = "\<lambda>n. (resourceBytes n, unusedBytes n)"
  have below: "wellSummed k" if "k \<in> set (descendants (collapseChain node))" for k
    using that descendants_collapseChain [of node] "1.prems"
    by (auto simp: set_subnodes_descendants)
  have chain: "map ?f (leaves (collapseChain node)) = map ?f (leaves node)"
    by (rule leaves_collapseChain) (auto simp: "1.prems" set_subnodes_descendants)
  show ?case
  proof (cases "children (collapseChain node)")
    case None
    then have "children (collapseAll node) = None"
      by (simp add: children_collapseAll)
    then have "map ?f (leaves (collapseAll node)) = [?f (collapseChain node)]"
      by (simp add: leaves_unfold [of "collapseAll node"])
    also have "\<dots> = map ?f (leaves (collapseChain node))"
      using None by (simp add: leaves_unfold [of "collapseChain node"])
    finally show ?thesis using chain by simp
  next
    case (Some cs)
    have each: "map ?f (leaves (collapseAll c)) = map ?f (leaves c)" if "c \<in> set cs" for c
    proof -
      have "c \<in> set (childrenList (collapseChain node))"
        using that Some by (simp add: childrenList_def)
      then have "wellSummed k" if "k \<in> set (subnodes c)" for k
        using that by (intro below) (rule child_in_descendants)
      from "1.IH" [OF refl Some \<open>c \<in> set cs\<close> this] show ?thesis .
    qed
    have "map ?f (leaves (collapseAll node)) = concat (map (\<lambda>c. map ?f (leaves (collapseAll c))) cs)"
      using Some
      by (simp add: leaves_unfold [of "collapseAll node"] children_collapseAll map_concat comp_def)
    also have "\<dots> = concat (map (\<lambda>c. map ?f (leaves c)) cs)"
      by (rule arg_cong [where f = concat], rule map_cong [OF refl]) (rule each)
    also have "\<dots> = map ?f (leaves (collapseChain node))"
      using Some by (simp add: leaves_unfold [of "collapseChain node"] map_concat comp_def)
    finally show ?thesis using chain by simp
  qed
qed

lemma leaves_prepareTreemapNodes:
  assumes "noNesting sourceRoot sourcesData"
  shows "map (\<lambda>n. (resourceBytes n, unusedBytes n)) (leaves (prepareTreemapNodes sourceRoot sourcesData)) =
         map (\<lambda>n. (resourceBytes n, unusedBytes n)) (leaves (buildTree sourceRoot sourcesData))"
proof -
  from assms have free: "nestFree (itemsOf sourceRoot sourcesData)"
    by (simp add: noNesting_nestFree)
  have "wellSummed m" if "m \<in> set (subnodes (buildTree sourceRoot sourcesData))" for m
    using represents_buildTree free that by (rule represents_all_wellSummed)
  then show ?thesis
    unfolding prepareTreemapNodes_def by (rule leaves_collapseAll)
qed

end
